theory Spec2Isabelle
  imports Main
begin

section \<open>Futures\<close>

text \<open>
  A promise is a cell of a store and is named by its index, the order of allocation.
  \<open>new Promise\<close> appends a pending cell; calling a resolver fulfils its cell and changes
  nothing on a settled one.

  A method runs up to its first \<open>await\<close> as one step.  The code after an \<open>await\<close>, and
  every callback given to \<open>then\<close>, \<open>catch\<close> or \<open>finally\<close>, is a step of its own, enabled
  once the promise it reacts to has settled.  Each component below has a type of events, a
  step function that yields \<open>None\<close> for an event that is not enabled, and a run function
  over lists of events.  Every order of enabled steps is a run, so the order in which the
  job queue of the host runs the callbacks is one of them.
\<close>

datatype pstate = Pending | Fulfilled | Rejected

type_synonym pid = nat

type_synonym store = "pstate list"

definition new_promise :: "store \<Rightarrow> pid \<times> store" where
  "new_promise h = (length h, h @ [Pending])"

definition resolve :: "pid \<Rightarrow> store \<Rightarrow> store" where
  "resolve p h = (if p < length h \<and> h ! p = Pending then h[p := Fulfilled] else h)"

definition settled :: "store \<Rightarrow> pid \<Rightarrow> bool" where
  "settled h p = (p < length h \<and> h ! p \<noteq> Pending)"

section \<open>Latch\<close>

text \<open>
  \<open>m_open\<close>, \<open>m_gate\<close> and \<open>m_inUse\<close> are the fields of the class; the resolver kept in
  \<open>m_open\<close> is named by the promise it resolves.  \<open>lpromises\<close> is the store.  \<open>lwaiters\<close>
  records the reads of \<open>gate\<close>: a read is \<open>Waiting g\<close> while its callback is registered on
  the gate promise \<open>g\<close>, and \<open>Passed\<close> once the promise it returned has been fulfilled.
  \<open>lhandles\<close> records the handles returned by \<open>use\<close>, each with whether a condition was
  given, and \<open>lconds\<close> counts the conditions that have been called and have not returned.
\<close>

datatype wstate = Waiting pid | Passed

record latch =
  m_open :: "pid option"
  m_gate :: pid
  m_inUse :: int
  lpromises :: store
  lwaiters :: "wstate list"
  lhandles :: "bool list"
  lconds :: nat

definition latch_open :: "latch \<Rightarrow> latch" where
  "latch_open s =
     (case m_open s of
        None \<Rightarrow> s
      | Some r \<Rightarrow> s\<lparr>lpromises := resolve r (lpromises s), m_open := None\<rparr>)"

definition latch_close :: "latch \<Rightarrow> latch" where
  "latch_close s =
     (let opn = m_open s;
          (g, h) = new_promise (lpromises s);
          s1 = s\<lparr>lpromises := h, m_open := Some g, m_gate := g\<rparr>
      in case opn of
           None \<Rightarrow> s1
         | Some r \<Rightarrow> s1\<lparr>lpromises := resolve r (lpromises s1)\<rparr>)"

definition new_latch :: latch where
  "new_latch =
     latch_close \<lparr>m_open = None, m_gate = 0, m_inUse = 0, lpromises = [],
                  lwaiters = [], lhandles = [], lconds = 0\<rparr>"

text \<open>
  The getter \<open>gate\<close> captures the stored gate and registers \<open>gate_then\<close> on it.  The
  callback lets the reader through when the stored gate is still the captured one, and
  otherwise returns a new read of \<open>gate\<close>, which the reader then follows.
\<close>

definition gate :: "latch \<Rightarrow> latch" where
  "gate s = s\<lparr>lwaiters := lwaiters s @ [Waiting (m_gate s)]\<rparr>"

definition gate_then :: "nat \<Rightarrow> latch \<Rightarrow> latch option" where
  "gate_then i s =
     (if i < length (lwaiters s) then
        (case lwaiters s ! i of
           Passed \<Rightarrow> None
         | Waiting g \<Rightarrow>
             if settled (lpromises s) g then
               Some (if m_gate s = g
                     then s\<lparr>lwaiters := (lwaiters s)[i := Passed]\<rparr>
                     else s\<lparr>lwaiters := (lwaiters s)[i := Waiting (m_gate s)]\<rparr>)
             else None)
      else None)"

text \<open>
  \<open>use\<close> returns a handle, and the body of its \<open>Symbol.dispose\<close> is split where it calls
  the condition, which is code of the caller.  \<open>dispose\<close> decrements the count; when the
  count has reached zero it opens the latch if the handle has no condition, and calls the
  condition otherwise.  The operations of the condition on the latch are further steps.
  \<open>condition_return r\<close> is the rest of the body for the innermost condition still
  running: it calls \<open>open\<close> when the condition returned true.
  A condition that throws leaves the latch as one that returns false.
\<close>

definition use :: "bool \<Rightarrow> latch \<Rightarrow> latch" where
  "use has_condition s =
     latch_close (s\<lparr>m_inUse := m_inUse s + 1, lhandles := lhandles s @ [has_condition]\<rparr>)"

definition dispose :: "bool \<Rightarrow> latch \<Rightarrow> latch" where
  "dispose has_condition s =
     (let s1 = s\<lparr>m_inUse := m_inUse s - 1\<rparr>
      in if m_inUse s1 = 0
         then (if has_condition then s1\<lparr>lconds := lconds s1 + 1\<rparr> else latch_open s1)
         else s1)"

definition condition_return :: "bool \<Rightarrow> latch \<Rightarrow> latch option" where
  "condition_return r s =
     (if lconds s = 0 then None
      else let s1 = s\<lparr>lconds := lconds s - 1\<rparr>
           in Some (if r then latch_open s1 else s1))"

text \<open>
  \<open>Dispose h\<close> disposes the handle number \<open>h\<close>; a handle may be disposed any number of
  times.  \<open>Return r\<close> is the return of a condition with result \<open>r\<close>, and the events
  between a disposal that called a condition and its \<open>Return\<close> are the operations of
  that condition on the latch.  \<open>Then i\<close> runs the callback of read number \<open>i\<close>; the
  host runs no callback while a condition is running, so the runs of the host are among
  the runs defined here.
\<close>

datatype latch_event =
  Gate | Open | Close | Use bool | Dispose nat | Return bool | Then nat

fun latch_step :: "latch_event \<Rightarrow> latch \<Rightarrow> latch option" where
  "latch_step Gate s = Some (gate s)"
| "latch_step Open s = Some (latch_open s)"
| "latch_step Close s = Some (latch_close s)"
| "latch_step (Use c) s = Some (use c s)"
| "latch_step (Dispose h) s =
     (if h < length (lhandles s) then Some (dispose (lhandles s ! h) s) else None)"
| "latch_step (Return r) s = condition_return r s"
| "latch_step (Then i) s = gate_then i s"

fun latch_run :: "latch_event list \<Rightarrow> latch \<Rightarrow> latch option" where
  "latch_run [] s = Some s"
| "latch_run (e # es) s =
     (case latch_step e s of None \<Rightarrow> None | Some s' \<Rightarrow> latch_run es s')"

text \<open>
  The latch is closed when it holds a resolver and the stored gate is unsettled.  A read
  is blocked while it has not been let through.  \<open>close_settle_first\<close> is \<open>close\<close> with
  its two effects in the other order: settle the previous gate, then install the new one.
  \<open>unforced\<close> holds of the runs in which \<open>open\<close> is called directly only while
  \<open>m_inUse\<close> is not positive, and in which no condition returns true while \<open>m_inUse\<close> is
  positive.
\<close>

definition closed :: "latch \<Rightarrow> bool" where
  "closed s = (m_open s \<noteq> None \<and> \<not> settled (lpromises s) (m_gate s))"

definition blocked :: "latch \<Rightarrow> nat \<Rightarrow> bool" where
  "blocked s i = (i < length (lwaiters s) \<and> lwaiters s ! i \<noteq> Passed)"

definition close_settle_first :: "latch \<Rightarrow> latch" where
  "close_settle_first s =
     (let s1 = (case m_open s of
                  None \<Rightarrow> s
                | Some r \<Rightarrow> s\<lparr>lpromises := resolve r (lpromises s)\<rparr>);
          (g, h) = new_promise (lpromises s1)
      in s1\<lparr>lpromises := h, m_open := Some g, m_gate := g\<rparr>)"

fun unforced :: "latch_event list \<Rightarrow> latch \<Rightarrow> bool" where
  "unforced [] s = True"
| "unforced (e # es) s =
     ((e \<noteq> Open \<and> e \<noteq> Return True \<or> m_inUse s \<le> 0) \<and>
      (case latch_step e s of None \<Rightarrow> True | Some s' \<Rightarrow> unforced es s'))"

definition latch_inv :: "latch \<Rightarrow> bool" where
  "latch_inv s =
     (m_gate s < length (lpromises s) \<and>
      (m_open s = None \<longrightarrow> settled (lpromises s) (m_gate s)) \<and>
      (\<forall>r. m_open s = Some r \<longrightarrow> r = m_gate s \<and> lpromises s ! r = Pending) \<and>
      (\<forall>p < length (lpromises s). p \<noteq> m_gate s \<longrightarrow> settled (lpromises s) p) \<and>
      (\<forall>i < length (lwaiters s). \<forall>g. lwaiters s ! i = Waiting g \<longrightarrow> g < length (lpromises s)))"

section \<open>Mutex\<close>

text \<open>
  A release token is \<open>releaseStub\<close> or the resolver of the promise created by the call.
  Calls of \<open>obtain\<close> are numbered in call order: \<open>mtasks s ! i\<close> is the state of call \<open>i\<close>,
  suspended at \<open>await lastPromise\<close> or returned with its token.  \<open>mgrants\<close> logs the calls
  that went through the queue, in the order in which they were granted.  The store starts
  with the fulfilled promise of \<open>Promise.resolve()\<close>.
\<close>

datatype token = ReleaseStub | Resolver pid

fun invoke :: "token \<Rightarrow> store \<Rightarrow> store" where
  "invoke ReleaseStub h = h"
| "invoke (Resolver p) h = resolve p h"

datatype mtask = Awaiting pid token | Returned token

record mutex =
  m_lastPromise :: pid
  mpromises :: store
  mtasks :: "mtask list"
  mgrants :: "nat list"

definition new_mutex :: mutex where
  "new_mutex = \<lparr>m_lastPromise = 0, mpromises = [Fulfilled], mtasks = [], mgrants = []\<rparr>"

text \<open>
  \<open>mutex_obtain\<close> is \<open>obtain\<close> up to \<open>await lastPromise\<close>; a bypassed call returns before
  it.  \<open>obtain_resume\<close> is the rest of the method: it returns the token, which is the grant.
  \<open>lock\<close> awaits \<open>obtain\<close> and wraps the token in a disposable.  \<open>release_call i\<close> is the
  caller of call \<open>i\<close> invoking the token it was given, any number of times.
\<close>

definition mutex_obtain :: "bool \<Rightarrow> mutex \<Rightarrow> mutex" where
  "mutex_obtain bypass s =
     (let release = ReleaseStub in
      if bypass then s\<lparr>mtasks := mtasks s @ [Returned release]\<rparr>
      else
        let lastPromise = m_lastPromise s;
            (p, h) = new_promise (mpromises s);
            release = Resolver p
        in s\<lparr>m_lastPromise := p, mpromises := h,
              mtasks := mtasks s @ [Awaiting lastPromise release]\<rparr>)"

definition obtain_resume :: "nat \<Rightarrow> mutex \<Rightarrow> mutex option" where
  "obtain_resume i s =
     (if i < length (mtasks s) then
        (case mtasks s ! i of
           Awaiting lastPromise release \<Rightarrow>
             if settled (mpromises s) lastPromise
             then Some (s\<lparr>mtasks := (mtasks s)[i := Returned release],
                          mgrants := mgrants s @ [i]\<rparr>)
             else None
         | Returned release \<Rightarrow> None)
      else None)"

definition lock :: "bool \<Rightarrow> mutex \<Rightarrow> mutex" where
  "lock bypass s = mutex_obtain bypass s"

definition release_call :: "nat \<Rightarrow> mutex \<Rightarrow> mutex option" where
  "release_call i s =
     (if i < length (mtasks s) then
        (case mtasks s ! i of
           Awaiting lastPromise release \<Rightarrow> None
         | Returned release \<Rightarrow> Some (s\<lparr>mpromises := invoke release (mpromises s)\<rparr>))
      else None)"

datatype mutex_event = Obtain bool | Lock bool | Resume nat | Release nat

fun mutex_step :: "mutex_event \<Rightarrow> mutex \<Rightarrow> mutex option" where
  "mutex_step (Obtain b) s = Some (mutex_obtain b s)"
| "mutex_step (Lock b) s = Some (lock b s)"
| "mutex_step (Resume i) s = obtain_resume i s"
| "mutex_step (Release i) s = release_call i s"

fun mutex_run :: "mutex_event list \<Rightarrow> mutex \<Rightarrow> mutex option" where
  "mutex_run [] s = Some s"
| "mutex_run (e # es) s =
     (case mutex_step e s of None \<Rightarrow> None | Some s' \<Rightarrow> mutex_run es s')"

text \<open>
  A call holds the lock from its grant until its token has been invoked.  A call is queued
  when it was not bypassed.  \<open>granted_before g i j\<close>: in the log \<open>g\<close>, call \<open>i\<close> occurs
  before the first occurrence of call \<open>j\<close>.
\<close>

definition holding :: "mutex \<Rightarrow> nat \<Rightarrow> bool" where
  "holding s i =
     (i < length (mtasks s) \<and>
      (case mtasks s ! i of
         Returned (Resolver p) \<Rightarrow> \<not> settled (mpromises s) p
       | _ \<Rightarrow> False))"

fun ticket :: "mtask \<Rightarrow> pid option" where
  "ticket (Awaiting lastPromise (Resolver p)) = Some p"
| "ticket (Returned (Resolver p)) = Some p"
| "ticket _ = None"

definition queued :: "mutex \<Rightarrow> nat \<Rightarrow> bool" where
  "queued s i = (i < length (mtasks s) \<and> ticket (mtasks s ! i) \<noteq> None)"

definition granted_before :: "nat list \<Rightarrow> nat \<Rightarrow> nat \<Rightarrow> bool" where
  "granted_before g i j = (i \<in> set (takeWhile (\<lambda>k. k \<noteq> j) g))"

definition awaiting_ok :: "store \<Rightarrow> mtask list \<Rightarrow> bool" where
  "awaiting_ok h ts =
     (\<forall>t \<in> set ts. \<forall>lp tok. t = Awaiting lp tok \<longrightarrow>
        tok = Resolver (Suc lp) \<and> Suc lp < length h \<and> \<not> settled h (Suc lp))"

definition returned_ok :: "store \<Rightarrow> mtask list \<Rightarrow> bool" where
  "returned_ok h ts =
     (\<forall>t \<in> set ts. \<forall>p. t = Returned (Resolver p) \<longrightarrow>
        0 < p \<and> p < length h \<and> settled h (p - 1))"

definition down_closed :: "store \<Rightarrow> bool" where
  "down_closed h = (\<forall>p q. q \<le> p \<longrightarrow> settled h p \<longrightarrow> settled h q)"

definition tickets_mono :: "mtask list \<Rightarrow> bool" where
  "tickets_mono ts =
     (\<forall>i j p q. i < j \<longrightarrow> j < length ts \<longrightarrow> ticket (ts ! i) = Some p \<longrightarrow>
        ticket (ts ! j) = Some q \<longrightarrow> p < q)"

definition grants_ok :: "nat list \<Rightarrow> mtask list \<Rightarrow> bool" where
  "grants_ok g ts =
     (sorted_wrt (<) g \<and>
      (\<forall>i. i \<in> set g \<longleftrightarrow> i < length ts \<and> (\<exists>p. ts ! i = Returned (Resolver p))))"

definition mutex_inv :: "mutex \<Rightarrow> bool" where
  "mutex_inv s =
     (mpromises s \<noteq> [] \<and> m_lastPromise s = length (mpromises s) - 1 \<and>
      awaiting_ok (mpromises s) (mtasks s) \<and> returned_ok (mpromises s) (mtasks s) \<and>
      down_closed (mpromises s) \<and> tickets_mono (mtasks s) \<and>
      grants_ok (mgrants s) (mtasks s))"

section \<open>MutexRW\<close>

text \<open>
  A cell of the store is a plain promise or a \<open>Promise.all\<close> over a list of promises;
  \<open>rw_settle_all\<close> fulfils a \<open>Promise.all\<close> whose members have all settled.  Calls of
  \<open>obtainRO\<close> and \<open>obtainRW\<close> are numbered together in call order, \<open>rwtasks s ! i\<close> being the
  state of call \<open>i\<close>.  \<open>rwreactions\<close> holds the callbacks registered with \<open>then\<close>:
  \<open>DecRO p\<close> decrements \<open>roAccessCnt\<close> and \<open>ClearRW p\<close> clears \<open>rwAccess\<close>, each once \<open>p\<close>
  has settled.  \<open>rwgrants\<close> logs the writers in the order in which they were granted.  The
  three fields of promises start with a fulfilled promise each.
\<close>

datatype rwcell = Plain pstate | AllOf "pid list" pstate

fun cell_state :: "rwcell \<Rightarrow> pstate" where
  "cell_state (Plain st) = st"
| "cell_state (AllOf ps st) = st"

definition rw_settled :: "rwcell list \<Rightarrow> pid \<Rightarrow> bool" where
  "rw_settled h p = (p < length h \<and> cell_state (h ! p) \<noteq> Pending)"

definition rw_resolve :: "pid \<Rightarrow> rwcell list \<Rightarrow> rwcell list" where
  "rw_resolve p h = (if p < length h \<and> h ! p = Plain Pending then h[p := Plain Fulfilled] else h)"

datatype rwtask =
    RO_Await pid
  | RO_Returned pid
  | RW_AwaitPrev pid pid
  | RW_AwaitRO pid pid
  | RW_Returned pid

datatype reaction = DecRO pid | ClearRW pid | Ran

record mutexrw =
  m_nextRWPromise :: pid
  m_lastRWPromise :: pid
  m_lastROPromise :: pid
  roAccessCnt :: int
  rwAccess :: bool
  rwpromises :: "rwcell list"
  rwtasks :: "rwtask list"
  rwreactions :: "reaction list"
  rwgrants :: "nat list"

definition new_mutexrw :: mutexrw where
  "new_mutexrw =
     \<lparr>m_nextRWPromise = 0, m_lastRWPromise = 1, m_lastROPromise = 2,
      roAccessCnt = 0, rwAccess = False,
      rwpromises = [Plain Fulfilled, Plain Fulfilled, Plain Fulfilled],
      rwtasks = [], rwreactions = [], rwgrants = []\<rparr>"

text \<open>
  \<open>obtainRO_body\<close> is one pass of \<open>obtainRO\<close> from the test of its loop: the call either
  suspends on \<open>m_lastRWPromise\<close> or takes read access and returns.  \<open>obtainRW\<close> is the
  method up to \<open>await prevRWPromise\<close>, and \<open>obtainRW_body\<close> one pass from the test of
  \<open>roAccessCnt\<close>.  \<open>rw_resume\<close> continues a suspended call whose promise has settled, and
  \<open>rw_release i\<close> is the caller of call \<open>i\<close> invoking its token.
\<close>

definition obtainRO_body :: "mutexrw \<Rightarrow> rwtask \<times> mutexrw" where
  "obtainRO_body s =
     (if rwAccess s then (RO_Await (m_lastRWPromise s), s)
      else
        let thisROPromise = length (rwpromises s);
            joined = Suc (length (rwpromises s))
        in (RO_Returned thisROPromise,
            s\<lparr>roAccessCnt := roAccessCnt s + 1,
              rwpromises := rwpromises s @
                 [Plain Pending, AllOf [thisROPromise, m_lastROPromise s] Pending],
              m_lastROPromise := joined,
              rwreactions := rwreactions s @ [DecRO thisROPromise]\<rparr>))"

definition obtainRO :: "mutexrw \<Rightarrow> mutexrw" where
  "obtainRO s = (let (t, s') = obtainRO_body s in s'\<lparr>rwtasks := rwtasks s' @ [t]\<rparr>)"

definition lockRO :: "mutexrw \<Rightarrow> mutexrw" where
  "lockRO s = obtainRO s"

definition obtainRW_body :: "nat \<Rightarrow> pid \<Rightarrow> mutexrw \<Rightarrow> rwtask \<times> mutexrw" where
  "obtainRW_body i thisRWPromise s =
     (if roAccessCnt s \<noteq> 0 then (RW_AwaitRO (m_lastROPromise s) thisRWPromise, s)
      else (RW_Returned thisRWPromise,
            s\<lparr>rwAccess := True, m_lastRWPromise := thisRWPromise,
              rwreactions := rwreactions s @ [ClearRW thisRWPromise],
              rwgrants := rwgrants s @ [i]\<rparr>))"

definition obtainRW :: "mutexrw \<Rightarrow> mutexrw" where
  "obtainRW s =
     (let prevRWPromise = m_nextRWPromise s;
          thisRWPromise = length (rwpromises s)
      in s\<lparr>rwpromises := rwpromises s @ [Plain Pending],
            m_nextRWPromise := thisRWPromise,
            rwtasks := rwtasks s @ [RW_AwaitPrev prevRWPromise thisRWPromise]\<rparr>)"

definition lockRW :: "mutexrw \<Rightarrow> mutexrw" where
  "lockRW s = obtainRW s"

definition rw_resume :: "nat \<Rightarrow> mutexrw \<Rightarrow> mutexrw option" where
  "rw_resume i s =
     (if i < length (rwtasks s) then
        (case rwtasks s ! i of
           RO_Await p \<Rightarrow>
             if rw_settled (rwpromises s) p
             then (let (t, s') = obtainRO_body s in Some (s'\<lparr>rwtasks := (rwtasks s')[i := t]\<rparr>))
             else None
         | RW_AwaitPrev prevRWPromise thisRWPromise \<Rightarrow>
             if rw_settled (rwpromises s) prevRWPromise
             then (let (t, s') = obtainRW_body i thisRWPromise s
                   in Some (s'\<lparr>rwtasks := (rwtasks s')[i := t]\<rparr>))
             else None
         | RW_AwaitRO p thisRWPromise \<Rightarrow>
             if rw_settled (rwpromises s) p
             then (let (t, s') = obtainRW_body i thisRWPromise s
                   in Some (s'\<lparr>rwtasks := (rwtasks s')[i := t]\<rparr>))
             else None
         | _ \<Rightarrow> None)
      else None)"

definition rw_release :: "nat \<Rightarrow> mutexrw \<Rightarrow> mutexrw option" where
  "rw_release i s =
     (if i < length (rwtasks s) then
        (case rwtasks s ! i of
           RO_Returned p \<Rightarrow> Some (s\<lparr>rwpromises := rw_resolve p (rwpromises s)\<rparr>)
         | RW_Returned p \<Rightarrow> Some (s\<lparr>rwpromises := rw_resolve p (rwpromises s)\<rparr>)
         | _ \<Rightarrow> None)
      else None)"

definition rw_react :: "nat \<Rightarrow> mutexrw \<Rightarrow> mutexrw option" where
  "rw_react k s =
     (if k < length (rwreactions s) then
        (case rwreactions s ! k of
           DecRO p \<Rightarrow>
             if rw_settled (rwpromises s) p
             then Some (s\<lparr>roAccessCnt := roAccessCnt s - 1,
                          rwreactions := (rwreactions s)[k := Ran]\<rparr>)
             else None
         | ClearRW p \<Rightarrow>
             if rw_settled (rwpromises s) p
             then Some (s\<lparr>rwAccess := False, rwreactions := (rwreactions s)[k := Ran]\<rparr>)
             else None
         | Ran \<Rightarrow> None)
      else None)"

definition rw_settle_all :: "pid \<Rightarrow> mutexrw \<Rightarrow> mutexrw option" where
  "rw_settle_all a s =
     (if a < length (rwpromises s) then
        (case rwpromises s ! a of
           AllOf ps Pending \<Rightarrow>
             if list_all (rw_settled (rwpromises s)) ps
             then Some (s\<lparr>rwpromises := (rwpromises s)[a := AllOf ps Fulfilled]\<rparr>)
             else None
         | _ \<Rightarrow> None)
      else None)"

datatype rw_event =
  ObtainRO | LockRO | ObtainRW | LockRW | RWResume nat | RWRelease nat | React nat | SettleAll pid

fun rw_step :: "rw_event \<Rightarrow> mutexrw \<Rightarrow> mutexrw option" where
  "rw_step ObtainRO s = Some (obtainRO s)"
| "rw_step LockRO s = Some (lockRO s)"
| "rw_step ObtainRW s = Some (obtainRW s)"
| "rw_step LockRW s = Some (lockRW s)"
| "rw_step (RWResume i) s = rw_resume i s"
| "rw_step (RWRelease i) s = rw_release i s"
| "rw_step (React k) s = rw_react k s"
| "rw_step (SettleAll a) s = rw_settle_all a s"

fun rw_run :: "rw_event list \<Rightarrow> mutexrw \<Rightarrow> mutexrw option" where
  "rw_run [] s = Some s"
| "rw_run (e # es) s = (case rw_step e s of None \<Rightarrow> None | Some s' \<Rightarrow> rw_run es s')"

text \<open>
  A call is reading, or writing, from the moment it returned its token until the token has
  been invoked.
\<close>

definition reading :: "mutexrw \<Rightarrow> nat \<Rightarrow> bool" where
  "reading s i =
     (i < length (rwtasks s) \<and>
      (case rwtasks s ! i of RO_Returned p \<Rightarrow> \<not> rw_settled (rwpromises s) p | _ \<Rightarrow> False))"

definition writing :: "mutexrw \<Rightarrow> nat \<Rightarrow> bool" where
  "writing s i =
     (i < length (rwtasks s) \<and>
      (case rwtasks s ! i of RW_Returned p \<Rightarrow> \<not> rw_settled (rwpromises s) p | _ \<Rightarrow> False))"

fun wthis :: "rwtask \<Rightarrow> pid option" where
  "wthis (RW_AwaitPrev prev p) = Some p"
| "wthis (RW_AwaitRO a p) = Some p"
| "wthis (RW_Returned p) = Some p"
| "wthis _ = None"

definition is_writer :: "mutexrw \<Rightarrow> nat \<Rightarrow> bool" where
  "is_writer s i = (i < length (rwtasks s) \<and> wthis (rwtasks s ! i) \<noteq> None)"

definition readers_overlap :: "nat \<Rightarrow> mutexrw \<Rightarrow> bool" where
  "readers_overlap n s =
     (\<not> rwAccess s \<and> roAccessCnt s = int n \<and> length (rwtasks s) = n \<and>
      (\<forall>i < n. reading s i) \<and>
      (\<forall>t \<in> set (rwtasks s). \<forall>p. t = RO_Returned p \<longrightarrow> p < length (rwpromises s)))"

fun rtok :: "rwtask \<Rightarrow> pid option" where
  "rtok (RO_Returned p) = Some p"
| "rtok _ = None"

definition wset :: "rwtask list \<Rightarrow> pid set" where
  "wset ts = {p. \<exists>t \<in> set ts. wthis t = Some p}"

definition rset :: "rwtask list \<Rightarrow> pid set" where
  "rset ts = {p. \<exists>t \<in> set ts. rtok t = Some p}"

definition wmono :: "rwtask list \<Rightarrow> bool" where
  "wmono ts =
     (\<forall>i j p q. i < j \<longrightarrow> j < length ts \<longrightarrow> wthis (ts ! i) = Some p \<longrightarrow>
        wthis (ts ! j) = Some q \<longrightarrow> p < q)"

definition heap_ok :: "rwcell list \<Rightarrow> rwtask list \<Rightarrow> pid \<Rightarrow> bool" where
  "heap_ok h ts mn =
     (mn < length h \<and>
      (\<forall>p \<in> wset ts \<union> rset ts. 0 < p \<and> p < length h) \<and>
      (\<forall>p \<in> wset ts. \<exists>st. h ! p = Plain st) \<and>
      wset ts \<inter> rset ts = {} \<and>
      (\<forall>p \<in> wset ts. p \<le> mn) \<and> (mn = 0 \<or> mn \<in> wset ts) \<and>
      rw_settled h 0)"

definition chain_ok :: "rwcell list \<Rightarrow> rwtask list \<Rightarrow> bool" where
  "chain_ok h ts =
     ((\<forall>p \<in> wset ts. \<forall>q \<in> wset ts. q \<le> p \<longrightarrow> rw_settled h p \<longrightarrow> rw_settled h q) \<and>
      (\<forall>t \<in> set ts. \<forall>q. (t = RW_Returned q \<or> (\<exists>a. t = RW_AwaitRO a q)) \<longrightarrow>
          (\<forall>p \<in> wset ts. p < q \<longrightarrow> rw_settled h p)) \<and>
      (\<forall>t \<in> set ts. \<forall>pr q. t = RW_AwaitPrev pr q \<longrightarrow>
          pr < q \<and> \<not> rw_settled h q \<and> (pr = 0 \<or> pr \<in> wset ts) \<and>
          (\<forall>p \<in> wset ts. p < q \<longrightarrow> p \<le> pr)) \<and>
      (\<forall>t \<in> set ts. \<forall>a q. t = RW_AwaitRO a q \<longrightarrow> \<not> rw_settled h q))"

definition wgrants_ok :: "nat list \<Rightarrow> rwtask list \<Rightarrow> bool" where
  "wgrants_ok g ts =
     (sorted_wrt (<) g \<and>
      (\<forall>i. i \<in> set g \<longleftrightarrow> i < length ts \<and> (\<exists>p. ts ! i = RW_Returned p)))"

definition rw_inv :: "mutexrw \<Rightarrow> bool" where
  "rw_inv s =
     (heap_ok (rwpromises s) (rwtasks s) (m_nextRWPromise s) \<and>
      chain_ok (rwpromises s) (rwtasks s) \<and> wmono (rwtasks s) \<and>
      wgrants_ok (rwgrants s) (rwtasks s))"

section \<open>PromiseBarrier\<close>

text \<open>
  The store holds the tasks of the callers and the promises made by the barrier.
  \<open>Task\<close> is a promise of a caller.  \<open>Caught p\<close> is \<open>promise.catch(...)\<close> for the task \<open>p\<close>,
  and \<open>Finalized c p\<close> the \<open>finally\<close> on \<open>c\<close> whose callback deletes \<open>p\<close> from the set.
  \<open>Resolved\<close> is a \<open>Promise.resolve()\<close>.  \<open>AllSettledThen snap ret\<close> is
  \<open>Promise.allSettled(...).then(...)\<close> over the tasks \<open>snap\<close> that were in the set when it was
  made; \<open>ret\<close> is the promise its callback returned, once the callback has run.  The set
  \<open>m_activePromises\<close> is a list without duplicates in insertion order.
\<close>

datatype bcell =
    Task pstate
  | Caught pid pstate
  | Finalized pid pid pstate
  | Resolved
  | AllSettledThen "pid list" "pid option" pstate

fun bstate :: "bcell \<Rightarrow> pstate" where
  "bstate (Task st) = st"
| "bstate (Caught p st) = st"
| "bstate (Finalized c p st) = st"
| "bstate Resolved = Fulfilled"
| "bstate (AllSettledThen snap ret st) = st"

definition bsettled :: "bcell list \<Rightarrow> pid \<Rightarrow> bool" where
  "bsettled h p = (p < length h \<and> bstate (h ! p) \<noteq> Pending)"

record barrier =
  m_activePromises :: "pid list"
  m_cachedFree :: "pid option"
  bpromises :: "bcell list"


definition set_add :: "pid \<Rightarrow> pid list \<Rightarrow> pid list" where
  "set_add p xs = (if p \<in> set xs then xs else xs @ [p])"

definition add :: "pid \<Rightarrow> barrier \<Rightarrow> barrier" where
  "add promise s =
     s\<lparr>m_activePromises := set_add promise (m_activePromises s),
       bpromises := bpromises s @
         [Caught promise Pending, Finalized (length (bpromises s)) promise Pending]\<rparr>"

text \<open>
  The callback of \<open>catch\<close> turns a rejection into a fulfilment; \<open>finally\<close> runs its
  callback on either outcome and passes the outcome on.
\<close>

fun catch_outcome :: "pstate \<Rightarrow> pstate" where
  "catch_outcome Pending = Pending"
| "catch_outcome Fulfilled = Fulfilled"
| "catch_outcome Rejected = Fulfilled"

definition run_catch :: "pid \<Rightarrow> barrier \<Rightarrow> barrier option" where
  "run_catch c s =
     (if c < length (bpromises s) then
        (case bpromises s ! c of
           Caught p Pending \<Rightarrow>
             if bsettled (bpromises s) p
             then Some (s\<lparr>bpromises :=
                    (bpromises s)[c := Caught p (catch_outcome (bstate (bpromises s ! p)))]\<rparr>)
             else None
         | _ \<Rightarrow> None)
      else None)"

definition run_finally :: "pid \<Rightarrow> barrier \<Rightarrow> barrier option" where
  "run_finally f s =
     (if f < length (bpromises s) then
        (case bpromises s ! f of
           Finalized c p Pending \<Rightarrow>
             if bsettled (bpromises s) c
             then Some (s\<lparr>m_activePromises := removeAll p (m_activePromises s),
                          bpromises :=
                            (bpromises s)[f := Finalized c p (bstate (bpromises s ! c))]\<rparr>)
             else None
         | _ \<Rightarrow> None)
      else None)"

text \<open>
  The getter \<open>free\<close> returns a promise and the new state.  \<open>run_then\<close> is the callback it
  registers: it runs once every task of the snapshot has settled, clears the cache and
  returns a new read of \<open>free\<close>.  \<open>adopt\<close> settles the promise of the callback's
  \<open>then\<close> with the outcome of the promise returned.
\<close>

definition free :: "barrier \<Rightarrow> pid \<times> barrier" where
  "free s =
     (case m_cachedFree s of
        Some cached \<Rightarrow> (cached, s)
      | None \<Rightarrow>
          if m_activePromises s = []
          then (length (bpromises s), s\<lparr>bpromises := bpromises s @ [Resolved]\<rparr>)
          else (length (bpromises s),
                s\<lparr>bpromises := bpromises s @ [AllSettledThen (m_activePromises s) None Pending],
                  m_cachedFree := Some (length (bpromises s))\<rparr>))"

definition run_then :: "pid \<Rightarrow> barrier \<Rightarrow> barrier option" where
  "run_then t s =
     (if t < length (bpromises s) then
        (case bpromises s ! t of
           AllSettledThen snap None Pending \<Rightarrow>
             if list_all (bsettled (bpromises s)) snap
             then (let (r, s') = free (s\<lparr>m_cachedFree := None\<rparr>)
                   in Some (s'\<lparr>bpromises :=
                              (bpromises s')[t := AllSettledThen snap (Some r) Pending]\<rparr>))
             else None
         | _ \<Rightarrow> None)
      else None)"

definition adopt :: "pid \<Rightarrow> barrier \<Rightarrow> barrier option" where
  "adopt t s =
     (if t < length (bpromises s) then
        (case bpromises s ! t of
           AllSettledThen snap (Some r) Pending \<Rightarrow>
             if bsettled (bpromises s) r
             then Some (s\<lparr>bpromises :=
                    (bpromises s)[t := AllSettledThen snap (Some r) (bstate (bpromises s ! r))]\<rparr>)
             else None
         | _ \<Rightarrow> None)
      else None)"

text \<open>
  The callers create tasks and settle them either way (\<open>NewTask\<close>, \<open>Settle\<close>).  \<open>Add\<close>
  tracks a task of a caller; the remaining events are the callbacks.
\<close>

definition new_task :: "barrier \<Rightarrow> barrier" where
  "new_task s = s\<lparr>bpromises := bpromises s @ [Task Pending]\<rparr>"

definition settle_task :: "pid \<Rightarrow> bool \<Rightarrow> barrier \<Rightarrow> barrier option" where
  "settle_task p ok s =
     (if p < length (bpromises s) \<and> bpromises s ! p = Task Pending
      then Some (s\<lparr>bpromises := (bpromises s)[p := Task (if ok then Fulfilled else Rejected)]\<rparr>)
      else None)"

definition is_task :: "bcell list \<Rightarrow> pid \<Rightarrow> bool" where
  "is_task h p = (p < length h \<and> (case h ! p of Task st \<Rightarrow> True | _ \<Rightarrow> False))"

datatype barrier_event =
    NewTask | Settle pid bool | Add pid | ReadFree
  | RunCatch pid | RunFinally pid | RunThen pid | Adopt pid

fun barrier_step :: "barrier_event \<Rightarrow> barrier \<Rightarrow> barrier option" where
  "barrier_step NewTask s = Some (new_task s)"
| "barrier_step (Settle p ok) s = settle_task p ok s"
| "barrier_step (Add p) s = (if is_task (bpromises s) p then Some (add p s) else None)"
| "barrier_step ReadFree s = Some (snd (free s))"
| "barrier_step (RunCatch c) s = run_catch c s"
| "barrier_step (RunFinally f) s = run_finally f s"
| "barrier_step (RunThen t) s = run_then t s"
| "barrier_step (Adopt t) s = adopt t s"

fun barrier_run :: "barrier_event list \<Rightarrow> barrier \<Rightarrow> barrier option" where
  "barrier_run [] s = Some s"
| "barrier_run (e # es) s =
     (case barrier_step e s of None \<Rightarrow> None | Some s' \<Rightarrow> barrier_run es s')"




fun same_kind :: "bcell \<Rightarrow> bcell \<Rightarrow> bool" where
  "same_kind (Task st) (Task st') = True"
| "same_kind (Caught p st) (Caught p' st') = (p = p')"
| "same_kind (Finalized c p st) (Finalized c' p' st') = (c = c' \<and> p = p')"
| "same_kind Resolved Resolved = True"
| "same_kind (AllSettledThen snap ret st) (AllSettledThen snap' ret' st') = (snap = snap')"
| "same_kind _ _ = False"

definition extends :: "bcell list \<Rightarrow> bcell list \<Rightarrow> bool" where
  "extends h h' =
     (length h \<le> length h' \<and>
      (\<forall>i < length h. same_kind (h ! i) (h' ! i) \<and>
          (bstate (h ! i) \<noteq> Pending \<longrightarrow> h' ! i = h ! i)))"




definition cache_ok :: "bcell list \<Rightarrow> pid option \<Rightarrow> bool" where
  "cache_ok h cf =
     (\<forall>t. cf = Some t \<longrightarrow> t < length h \<and> (\<exists>snap. h ! t = AllSettledThen snap None Pending))"







section \<open>Properties of Latch\<close>

lemma settled_resolve: "settled (resolve r h) p = (settled h p \<or> (p = r \<and> r < length h))"
  by (auto simp: settled_def resolve_def nth_list_update)

lemma length_resolve [simp]: "length (resolve r h) = length h"
  by (simp add: resolve_def)

lemma settled_snoc: "settled (h @ [Pending]) p = settled h p"
  by (auto simp: settled_def nth_append)

lemma latch_inv_open: "latch_inv s \<Longrightarrow> latch_inv (latch_open s)"
  by (auto simp: latch_inv_def latch_open_def settled_resolve split: option.splits)

lemma latch_inv_close: "latch_inv s \<Longrightarrow> latch_inv (latch_close s)"
proof (cases "m_open s")
  case None
  assume "latch_inv s"
  with None show ?thesis
    by (auto simp: latch_inv_def latch_close_def new_promise_def settled_def nth_append
          less_Suc_eq)
next
  case (Some r)
  assume "latch_inv s"
  with Some show ?thesis
    by (auto simp: latch_inv_def latch_close_def new_promise_def settled_def nth_append
          less_Suc_eq resolve_def nth_list_update split: if_splits)
qed

lemma latch_inv_new: "latch_inv new_latch"
  by (simp add: latch_inv_def new_latch_def latch_close_def new_promise_def settled_def)

lemma latch_inv_gate: "latch_inv s \<Longrightarrow> latch_inv (gate s)"
  by (auto simp: latch_inv_def gate_def nth_append)

lemma latch_inv_use: "latch_inv s \<Longrightarrow> latch_inv (use c s)"
  unfolding use_def by (rule latch_inv_close) (simp add: latch_inv_def)

lemma latch_inv_lconds: "latch_inv (s\<lparr>lconds := n\<rparr>) = latch_inv s"
  by (simp add: latch_inv_def)

lemma latch_inv_dispose: "latch_inv s \<Longrightarrow> latch_inv (dispose c s)"
proof -
  assume a: "latch_inv s"
  have "latch_inv (s\<lparr>m_inUse := m_inUse s - 1\<rparr>)" using a by (simp add: latch_inv_def)
  then show ?thesis
    by (auto simp: dispose_def Let_def latch_inv_lconds intro: latch_inv_open)
qed

lemma latch_inv_return: "latch_inv s \<Longrightarrow> condition_return r s = Some s' \<Longrightarrow> latch_inv s'"
proof -
  assume a: "latch_inv s" and c: "condition_return r s = Some s'"
  have b: "latch_inv (s\<lparr>lconds := lconds s - 1\<rparr>)" using a by (simp add: latch_inv_lconds)
  from c have "s' = s\<lparr>lconds := lconds s - 1\<rparr> \<or> s' = latch_open (s\<lparr>lconds := lconds s - 1\<rparr>)"
    by (auto simp: condition_return_def Let_def split: if_splits)
  with b show ?thesis by (auto intro: latch_inv_open)
qed

lemma latch_inv_then: "latch_inv s \<Longrightarrow> gate_then i s = Some s' \<Longrightarrow> latch_inv s'"
  by (auto simp: latch_inv_def gate_then_def nth_list_update split: if_splits wstate.splits)

lemma latch_inv_step: "latch_inv s \<Longrightarrow> latch_step e s = Some s' \<Longrightarrow> latch_inv s'"
  by (cases e)
     (auto intro: latch_inv_open latch_inv_close latch_inv_gate latch_inv_use
        latch_inv_dispose latch_inv_then latch_inv_return split: if_splits)

lemma latch_inv_run: "latch_inv s \<Longrightarrow> latch_run es s = Some s' \<Longrightarrow> latch_inv s'"
  by (induction es arbitrary: s) (auto split: option.splits dest: latch_inv_step)

lemma latch_inv_reachable: "latch_run es new_latch = Some s \<Longrightarrow> latch_inv s"
  using latch_inv_new latch_inv_run by blast

lemma closed_iff: "latch_inv s \<Longrightarrow> closed s = (m_open s \<noteq> None)"
  by (auto simp: closed_def latch_inv_def settled_def)

lemma close_fields:
  "m_open (latch_close s) = Some (length (lpromises s))"
  "m_gate (latch_close s) = length (lpromises s)"
  "m_inUse (latch_close s) = m_inUse s"
  "lwaiters (latch_close s) = lwaiters s"
  "lhandles (latch_close s) = lhandles s"
  "lconds (latch_close s) = lconds s"
  "length (lpromises (latch_close s)) = Suc (length (lpromises s))"
  by (auto simp: latch_close_def new_promise_def Let_def split: option.splits)

lemma unforced_hold:
  "latch_inv s \<Longrightarrow> (0 < m_inUse s \<longrightarrow> m_open s \<noteq> None) \<Longrightarrow> unforced es s \<Longrightarrow>
   latch_run es s = Some s' \<Longrightarrow> 0 < m_inUse s' \<longrightarrow> m_open s' \<noteq> None"
proof (induction es arbitrary: s)
  case Nil
  then show ?case by simp
next
  case (Cons e es)
  from Cons.prems obtain s1 where s1: "latch_step e s = Some s1" "latch_run es s1 = Some s'"
    by (auto split: option.splits)
  have inv1: "latch_inv s1" using Cons.prems(1) s1(1) by (rule latch_inv_step)
  have unf1: "unforced es s1" using Cons.prems(3) s1(1) by simp
  have guard: "e \<noteq> Open \<and> e \<noteq> Return True \<or> m_inUse s \<le> 0" using Cons.prems(3) by simp
  have hold1: "0 < m_inUse s1 \<longrightarrow> m_open s1 \<noteq> None"
  proof (cases e)
    case Gate
    with s1(1) Cons.prems(2) show ?thesis by (auto simp: gate_def)
  next
    case Open
    with guard have "m_inUse s \<le> 0" by simp
    with Open s1(1) show ?thesis by (auto simp: latch_open_def split: option.splits)
  next
    case Close
    with s1(1) show ?thesis by (auto simp: close_fields)
  next
    case (Use c)
    with s1(1) show ?thesis by (auto simp: use_def close_fields)
  next
    case (Dispose h)
    with s1(1) Cons.prems(2) show ?thesis
      by (auto simp: dispose_def Let_def latch_open_def split: option.splits if_splits)
  next
    case (Return r)
    show ?thesis
    proof (cases r)
      case True
      with Return guard have "m_inUse s \<le> 0" by simp
      with Return s1(1) show ?thesis
        by (auto simp: condition_return_def Let_def latch_open_def
              split: option.splits if_splits)
    next
      case False
      with Return s1(1) Cons.prems(2) show ?thesis
        by (auto simp: condition_return_def Let_def split: if_splits)
    qed
  next
    case (Then i)
    with s1(1) Cons.prems(2) show ?thesis
      by (auto simp: gate_then_def split: if_splits wstate.splits)
  qed
  show ?case using Cons.IH[OF inv1 hold1 unf1 s1(2)] .
qed

lemma then_run_blocked:
  "latch_inv s \<Longrightarrow> m_open s \<noteq> None \<Longrightarrow> blocked s i \<Longrightarrow>
   latch_run (map Then ks) s = Some s' \<Longrightarrow> blocked s' i \<and> m_open s' \<noteq> None"
proof (induction ks arbitrary: s)
  case Nil
  then show ?case by simp
next
  case (Cons k ks)
  from Cons.prems obtain s1 where s1: "gate_then k s = Some s1"
      "latch_run (map Then ks) s1 = Some s'"
    by (auto split: option.splits)
  have inv1: "latch_inv s1" using Cons.prems(1) s1(1) by (rule latch_inv_then)
  have op1: "m_open s1 \<noteq> None" using s1(1) Cons.prems(2)
    by (auto simp: gate_then_def split: if_splits wstate.splits)
  have bl1: "blocked s1 i" using s1(1) Cons.prems(1,2,3)
    by (auto simp: gate_then_def blocked_def latch_inv_def nth_list_update settled_def
          split: if_splits wstate.splits)
  show ?case using Cons.IH[OF inv1 op1 bl1 s1(2)] .
qed

lemma dispose_inUse: "m_inUse (dispose c s) = m_inUse s - 1"
  by (simp add: dispose_def Let_def latch_open_def split: option.splits)

text \<open>
  C4. A task suspended on \<open>gate\<close> of a closed latch stays blocked across
  \<open>open(); close();\<close>: once the flip has happened its callback finds that the stored
  gate is no longer the one it captured and awaits the newly installed gate, which is
  unsettled, whatever callbacks run afterwards.  A callback that lets its task through has
  found the latch open.
\<close>

theorem gate_flip_keeps_waiter_blocked:
  assumes run: "latch_run evs new_latch = Some s"
    and i: "i < length (lwaiters s)"
    and w: "lwaiters s ! i = Waiting g"
  shows "(closed s \<longrightarrow>
            closed (latch_close (latch_open s)) \<and>
            gate_then i (latch_close (latch_open s)) =
              Some ((latch_close (latch_open s))
                     \<lparr>lwaiters := (lwaiters s)[i := Waiting (m_gate (latch_close (latch_open s)))]\<rparr>) \<and>
            (\<forall>ks s'. latch_run (map Then ks) (latch_close (latch_open s)) = Some s' \<longrightarrow>
                     blocked s' i \<and> closed s')) \<and>
         (\<forall>s'. gate_then i s = Some s' \<longrightarrow> lwaiters s' ! i = Passed \<longrightarrow>
               \<not> closed s \<and> \<not> closed s' \<and> m_gate s' = g)"
proof (intro conjI impI allI)
  have inv: "latch_inv s" using run by (rule latch_inv_reachable)
  let ?s1 = "latch_open s"
  let ?s2 = "latch_close ?s1"
  have inv1: "latch_inv ?s1" using inv by (rule latch_inv_open)
  have inv2: "latch_inv ?s2" using inv1 by (rule latch_inv_close)
  have op2: "m_open ?s2 \<noteq> None" by (simp add: close_fields)
  show c2: "closed ?s2" using inv2 op2 by (simp add: closed_iff)
  have w1: "lwaiters ?s1 = lwaiters s" by (simp add: latch_open_def split: option.splits)
  have w2: "lwaiters ?s2 = lwaiters s" using w1 by (simp add: close_fields)
  have len1: "length (lpromises ?s1) = length (lpromises s)"
    by (simp add: latch_open_def split: option.splits)
  have g_lt: "g < length (lpromises s)" using inv i w by (auto simp: latch_inv_def)
  have gate2: "m_gate ?s2 = length (lpromises s)" using len1 by (simp add: close_fields)
  have g_ne: "m_gate ?s2 \<noteq> g" using g_lt gate2 by simp
  have "g < length (lpromises ?s2)" using g_lt len1 by (simp add: close_fields)
  then have g_set: "settled (lpromises ?s2) g" using inv2 g_ne by (auto simp: latch_inv_def)
  show "gate_then i ?s2 = Some (?s2\<lparr>lwaiters := (lwaiters s)[i := Waiting (m_gate ?s2)]\<rparr>)"
    using i w w2 g_set g_ne by (simp add: gate_then_def)
  have bl2: "blocked ?s2 i" using i w w2 by (simp add: blocked_def)
  {
    fix ks s'
    assume r: "latch_run (map Then ks) ?s2 = Some s'"
    have b: "blocked s' i \<and> m_open s' \<noteq> None"
      using then_run_blocked[OF inv2 op2 bl2 r] .
    then show "blocked s' i" by simp
    have "latch_inv s'" using inv2 r by (rule latch_inv_run)
    then show "closed s'" using b by (simp add: closed_iff)
  }
  {
    fix s'
    assume t: "gate_then i s = Some s'" and p: "lwaiters s' ! i = Passed"
    from t p i w have gs: "settled (lpromises s) g" and mg: "m_gate s = g"
      and s': "s' = s\<lparr>lwaiters := (lwaiters s)[i := Passed]\<rparr>"
      by (auto simp: gate_then_def split: if_splits)
    from gs mg inv have "m_open s = None"
      by (cases "m_open s") (auto simp: latch_inv_def settled_def)
    then show "\<not> closed s" by (simp add: closed_def)
    then show "\<not> closed s'" using s' by (simp add: closed_def)
    show "m_gate s' = g" using s' mg by simp
  }
qed

theorem gate_flip_keeps_waiter_blocked_witness:
  "latch_run [Gate] new_latch \<noteq> None \<and>
   lwaiters (the (latch_run [Gate] new_latch)) ! 0 = Waiting 0 \<and>
   closed (the (latch_run [Gate] new_latch)) \<and>
   latch_run (map Then [0])
     (latch_close (latch_open (the (latch_run [Gate] new_latch)))) \<noteq> None \<and>
   blocked (the (latch_run (map Then [0])
     (latch_close (latch_open (the (latch_run [Gate] new_latch)))))) 0"
proof -
  let ?s = "the (latch_run [Gate] new_latch)"
  have s: "latch_run [Gate] new_latch = Some ?s" by code_simp
  have i: "0 < length (lwaiters ?s)" by code_simp
  have w: "lwaiters ?s ! 0 = Waiting 0" by code_simp
  have c: "closed ?s" by code_simp
  have r: "latch_run (map Then [0]) (latch_close (latch_open ?s)) =
           Some (the (latch_run (map Then [0]) (latch_close (latch_open ?s))))" by code_simp
  from gate_flip_keeps_waiter_blocked[OF s i w] c r
  have "blocked (the (latch_run (map Then [0]) (latch_close (latch_open ?s)))) 0"
    by blast
  moreover have "latch_run [Gate] new_latch \<noteq> None" by code_simp
  moreover have "latch_run (map Then [0]) (latch_close (latch_open ?s)) \<noteq> None" by code_simp
  ultimately show ?thesis using w c by blast
qed

text \<open>
  C6 as stated: in every state reachable by the public operations, a positive
  \<open>m_inUse\<close> implies that the latch is closed.  It fails: \<open>open()\<close> never looks at
  \<open>m_inUse\<close>, so \<open>use(); open();\<close> leaves one hold outstanding on an open latch.
\<close>

theorem hold_implies_closed_counterexample:
  "\<not> (\<forall>evs s. latch_run evs new_latch = Some s \<longrightarrow> 0 < m_inUse s \<longrightarrow> closed s)"
proof
  assume a: "\<forall>evs s. latch_run evs new_latch = Some s \<longrightarrow> 0 < m_inUse s \<longrightarrow> closed s"
  let ?s = "the (latch_run [Use False, Open] new_latch)"
  have "latch_run [Use False, Open] new_latch = Some ?s" by code_simp
  moreover have "0 < m_inUse ?s" by code_simp
  ultimately have "closed ?s" using a by blast
  moreover have "\<not> closed ?s" by code_simp
  ultimately show False by simp
qed

text \<open>
  The same state is reached without any direct \<open>open()\<close>.  The condition of a handle is
  code of the caller that runs after the count has been decremented and before \<open>open()\<close>
  is called.  In \<open>h = use(() => { use(); return true; })\<close> followed by one disposal of
  \<open>h\<close>, the count goes from one to zero, the condition takes a second hold, and the
  disposal then opens the latch with that hold outstanding.
\<close>

lemma condition_taking_hold_opens_latch:
  "latch_run [Use True, Dispose 0, Use False, Return True] new_latch \<noteq> None \<and>
   m_inUse (the (latch_run [Use True, Dispose 0, Use False, Return True] new_latch)) = 1 \<and>
   \<not> closed (the (latch_run [Use True, Dispose 0, Use False, Return True] new_latch)) \<and>
   \<not> unforced [Use True, Dispose 0, Use False, Return True] new_latch"
  by code_simp

text \<open>
  C6 amended: in every state reachable by gate reads, \<open>close()\<close>, \<open>use()\<close>, disposals of
  usage handles (repeated or not, with conditions that may themselves operate on the
  latch) and \<open>open()\<close>, where \<open>open()\<close> is called directly only while \<open>m_inUse\<close> is not
  positive and no condition returns true while \<open>m_inUse\<close> is positive, a positive
  \<open>m_inUse\<close> implies that the latch is closed: the resolver is non-null and the gate
  future is unsettled.
\<close>

theorem hold_implies_closed_unforced:
  assumes "latch_run evs new_latch = Some s"
    and "unforced evs new_latch"
    and "0 < m_inUse s"
  shows "closed s"
proof -
  have inv0: "latch_inv new_latch" by (rule latch_inv_new)
  have h0: "0 < m_inUse new_latch \<longrightarrow> m_open new_latch \<noteq> None"
    by (simp add: new_latch_def close_fields)
  have "0 < m_inUse s \<longrightarrow> m_open s \<noteq> None"
    using unforced_hold[OF inv0 h0 assms(2) assms(1)] .
  moreover have "latch_inv s" using assms(1) by (rule latch_inv_reachable)
  ultimately show ?thesis using assms(3) by (simp add: closed_iff)
qed

theorem hold_implies_closed_unforced_witness:
  "latch_run [Use True, Gate, Dispose 0, Use False, Dispose 1, Return True, Open, Close,
      Use True, Use False, Dispose 3, Dispose 3, Use False] new_latch \<noteq> None \<and>
   unforced [Use True, Gate, Dispose 0, Use False, Dispose 1, Return True, Open, Close,
      Use True, Use False, Dispose 3, Dispose 3, Use False] new_latch \<and>
   0 < m_inUse (the (latch_run
     [Use True, Gate, Dispose 0, Use False, Dispose 1, Return True, Open, Close,
      Use True, Use False, Dispose 3, Dispose 3, Use False] new_latch)) \<and>
   closed (the (latch_run
     [Use True, Gate, Dispose 0, Use False, Dispose 1, Return True, Open, Close,
      Use True, Use False, Dispose 3, Dispose 3, Use False] new_latch))"
proof -
  let ?evs = "[Use True, Gate, Dispose 0, Use False, Dispose 1, Return True, Open, Close,
      Use True, Use False, Dispose 3, Dispose 3, Use False]"
  have ne: "latch_run ?evs new_latch \<noteq> None" by code_simp
  have r: "latch_run ?evs new_latch = Some (the (latch_run ?evs new_latch))"
    using ne by (rule option.collapse[symmetric])
  have u: "unforced ?evs new_latch" by code_simp
  have h: "0 < m_inUse (the (latch_run ?evs new_latch))" by code_simp
  have c: "closed (the (latch_run ?evs new_latch))"
    using hold_implies_closed_unforced[OF r u h] .
  from ne u h c show ?thesis by (intro conjI)
qed

text \<open>
  C7. When \<open>close()\<close> is called on a latch that is already closed, the previous gate
  future is settled and a fresh unsettled gate is installed.  The method installs the new
  gate before it settles the old one; since nothing runs in between, the resulting state is
  the one obtained by settling first and installing afterwards.  Every task still waiting
  (on the previous gate or an older one) then has its callback enabled and moves on to the
  new gate, so none stays blocked on the old future.
\<close>

theorem reclose_settles_previous_gate:
  assumes run: "latch_run evs new_latch = Some s"
    and c: "closed s"
  shows "settled (lpromises (latch_close s)) (m_gate s) \<and>
         m_gate (latch_close s) \<noteq> m_gate s \<and>
         closed (latch_close s) \<and>
         latch_close s = close_settle_first s \<and>
         (\<forall>i < length (lwaiters s). lwaiters s ! i \<noteq> Passed \<longrightarrow>
            gate_then i (latch_close s) =
              Some ((latch_close s)\<lparr>lwaiters := (lwaiters s)[i := Waiting (m_gate (latch_close s))]\<rparr>))"
proof (intro conjI allI impI)
  have inv: "latch_inv s" using run by (rule latch_inv_reachable)
  have inv2: "latch_inv (latch_close s)" using inv by (rule latch_inv_close)
  have lt: "m_gate s < length (lpromises s)" using inv by (simp add: latch_inv_def)
  have op: "m_open s = Some (m_gate s)" using inv c by (auto simp: closed_def latch_inv_def)
  show ne: "m_gate (latch_close s) \<noteq> m_gate s" using lt by (simp add: close_fields)
  show old: "settled (lpromises (latch_close s)) (m_gate s)"
    using inv2 ne lt by (auto simp: latch_inv_def close_fields)
  show "closed (latch_close s)" using inv2 by (simp add: closed_iff close_fields)
  show "latch_close s = close_settle_first s"
    using op lt
    by (simp add: latch_close_def close_settle_first_def new_promise_def resolve_def
          nth_append list_update_append)
  fix i
  assume i: "i < length (lwaiters s)" and np: "lwaiters s ! i \<noteq> Passed"
  then obtain g where g: "lwaiters s ! i = Waiting g" by (cases "lwaiters s ! i") auto
  have g_lt: "g < length (lpromises s)" using inv i g by (auto simp: latch_inv_def)
  then have g_ne: "m_gate (latch_close s) \<noteq> g" by (simp add: close_fields)
  have "settled (lpromises (latch_close s)) g"
    using inv2 g_ne g_lt by (auto simp: latch_inv_def close_fields)
  then show "gate_then i (latch_close s) =
      Some ((latch_close s)\<lparr>lwaiters := (lwaiters s)[i := Waiting (m_gate (latch_close s))]\<rparr>)"
    using i g g_ne by (simp add: gate_then_def close_fields)
qed

theorem reclose_settles_previous_gate_witness:
  "latch_run [Gate] new_latch \<noteq> None \<and>
   closed (the (latch_run [Gate] new_latch)) \<and>
   settled (lpromises (latch_close (the (latch_run [Gate] new_latch)))) 0 \<and>
   latch_close (the (latch_run [Gate] new_latch)) =
     close_settle_first (the (latch_run [Gate] new_latch))"
proof -
  let ?s = "the (latch_run [Gate] new_latch)"
  have r: "latch_run [Gate] new_latch = Some ?s" by code_simp
  have c: "closed ?s" by code_simp
  have g: "m_gate ?s = 0" by code_simp
  have "settled (lpromises (latch_close ?s)) (m_gate ?s) \<and>
        latch_close ?s = close_settle_first ?s"
    using reclose_settles_previous_gate[OF r c] by blast
  moreover have "latch_run [Gate] new_latch \<noteq> None" by code_simp
  ultimately show ?thesis using c g by metis
qed

text \<open>
  C10. Disposal of a usage handle is not idempotent: every invocation decrements
  \<open>m_inUse\<close> by one.  Disposing the only handle twice leaves \<open>m_inUse\<close> at \<open>-1\<close>; with two
  holds taken, disposing the first handle twice opens the latch although the second handle
  was never disposed, whether the condition is absent or returns true.
\<close>

theorem dispose_not_idempotent:
  "m_inUse (dispose c s) = m_inUse s - 1 \<and>
   m_inUse (dispose c' (dispose c s)) = m_inUse s - 2 \<and>
   (\<exists>s'. latch_run [Use False, Dispose 0, Dispose 0] new_latch = Some s' \<and>
         m_inUse s' = - 1) \<and>
   (\<exists>s'. latch_run [Use False, Use False, Dispose 0, Dispose 0] new_latch = Some s' \<and>
         m_inUse s' = 0 \<and> m_open s' = None \<and> settled (lpromises s') (m_gate s')) \<and>
   (\<exists>s'. latch_run [Use True, Use True, Dispose 0, Dispose 0, Return True] new_latch = Some s' \<and>
         m_inUse s' = 0 \<and> m_open s' = None \<and> settled (lpromises s') (m_gate s'))"
proof (intro conjI)
  show "m_inUse (dispose c s) = m_inUse s - 1" by (rule dispose_inUse)
  show "m_inUse (dispose c' (dispose c s)) = m_inUse s - 2" by (simp add: dispose_inUse)
  let ?a = "the (latch_run [Use False, Dispose 0, Dispose 0] new_latch)"
  have "latch_run [Use False, Dispose 0, Dispose 0] new_latch = Some ?a \<and>
        m_inUse ?a = - 1" by code_simp
  then show "\<exists>s'. latch_run [Use False, Dispose 0, Dispose 0] new_latch = Some s' \<and>
         m_inUse s' = - 1" by blast
  let ?b = "the (latch_run [Use False, Use False, Dispose 0, Dispose 0] new_latch)"
  have "latch_run [Use False, Use False, Dispose 0, Dispose 0] new_latch = Some ?b \<and>
        m_inUse ?b = 0 \<and> m_open ?b = None \<and> settled (lpromises ?b) (m_gate ?b)" by code_simp
  then show "\<exists>s'. latch_run [Use False, Use False, Dispose 0, Dispose 0] new_latch
        = Some s' \<and> m_inUse s' = 0 \<and> m_open s' = None \<and> settled (lpromises s') (m_gate s')"
    by blast
  let ?c = "the (latch_run [Use True, Use True, Dispose 0, Dispose 0, Return True] new_latch)"
  have "latch_run [Use True, Use True, Dispose 0, Dispose 0, Return True] new_latch = Some ?c \<and>
        m_inUse ?c = 0 \<and> m_open ?c = None \<and> settled (lpromises ?c) (m_gate ?c)" by code_simp
  then show "\<exists>s'. latch_run [Use True, Use True, Dispose 0, Dispose 0, Return True] new_latch
        = Some s' \<and> m_inUse s' = 0 \<and> m_open s' = None \<and> settled (lpromises s') (m_gate s')"
    by blast
qed

theorem dispose_not_idempotent_witness:
  "m_inUse (dispose False (dispose False (use False new_latch))) = - 1"
proof -
  have "m_inUse (dispose False (dispose False (use False new_latch))) =
        m_inUse (use False new_latch) - 2"
    using dispose_not_idempotent[of False "use False new_latch" False] by blast
  moreover have "m_inUse (use False new_latch) = 1" by code_simp
  ultimately show ?thesis by simp
qed

section \<open>Properties of Mutex\<close>

lemma ticket_Some:
  "ticket t = Some p \<longleftrightarrow> (\<exists>lp. t = Awaiting lp (Resolver p)) \<or> t = Returned (Resolver p)"
  by (cases t rule: ticket.cases) auto

lemma ticket_bound:
  assumes "awaiting_ok h ts" "returned_ok h ts" "t \<in> set ts" "ticket t = Some p"
  shows "p < length h"
proof -
  from assms(4) consider lp where "t = Awaiting lp (Resolver p)" | "t = Returned (Resolver p)"
    by (auto simp: ticket_Some)
  then show ?thesis
  proof cases
    case 1
    with assms(1,3) have "Resolver p = Resolver (Suc lp) \<and> Suc lp < length h"
      unfolding awaiting_ok_def by blast
    then show ?thesis by simp
  next
    case 2
    with assms(2,3) show ?thesis unfolding returned_ok_def by blast
  qed
qed

lemma mutex_inv_new: "mutex_inv new_mutex"
  by (simp add: mutex_inv_def new_mutex_def settled_def awaiting_ok_def returned_ok_def
        down_closed_def tickets_mono_def grants_ok_def)

lemma tickets_mono_snoc_None:
  "tickets_mono ts \<Longrightarrow> ticket t = None \<Longrightarrow> tickets_mono (ts @ [t])"
  unfolding tickets_mono_def
proof (intro allI impI)
  fix i j p q
  assume m: "\<forall>i j p q. i < j \<longrightarrow> j < length ts \<longrightarrow> ticket (ts ! i) = Some p \<longrightarrow>
        ticket (ts ! j) = Some q \<longrightarrow> p < q"
    and n: "ticket t = None" and ij: "i < j" and j: "j < length (ts @ [t])"
    and p: "ticket ((ts @ [t]) ! i) = Some p" and q: "ticket ((ts @ [t]) ! j) = Some q"
  from q n have "j \<noteq> length ts" by auto
  with j have j': "j < length ts" by simp
  with ij p q have "ticket (ts ! i) = Some p" "ticket (ts ! j) = Some q"
    by (simp_all add: nth_append)
  with m ij j' show "p < q" by blast
qed

lemma tickets_mono_snoc_Some:
  assumes m: "tickets_mono ts" and t: "ticket t = Some n"
    and b: "\<forall>u \<in> set ts. \<forall>p. ticket u = Some p \<longrightarrow> p < n"
  shows "tickets_mono (ts @ [t])"
  unfolding tickets_mono_def
proof (intro allI impI)
  fix i j p q
  assume ij: "i < j" and j: "j < length (ts @ [t])"
    and p: "ticket ((ts @ [t]) ! i) = Some p" and q: "ticket ((ts @ [t]) ! j) = Some q"
  show "p < q"
  proof (cases "j < length ts")
    case True
    with ij p q have "ticket (ts ! i) = Some p" "ticket (ts ! j) = Some q"
      by (simp_all add: nth_append)
    with m ij True show ?thesis unfolding tickets_mono_def by blast
  next
    case False
    with j have je: "j = length ts" by simp
    with q t have qn: "q = n" by simp
    from ij je have i: "i < length ts" by simp
    with p have "ticket (ts ! i) = Some p" by (simp add: nth_append)
    moreover from i have "ts ! i \<in> set ts" by simp
    ultimately show ?thesis using b qn by blast
  qed
qed

lemma tickets_mono_update:
  assumes m: "tickets_mono ts" and i: "i < length ts" and t: "ticket t = ticket (ts ! i)"
  shows "tickets_mono (ts[i := t])"
  unfolding tickets_mono_def
proof (intro allI impI)
  fix a b p q
  assume ab: "a < b" and b: "b < length (ts[i := t])"
    and p: "ticket (ts[i := t] ! a) = Some p" and q: "ticket (ts[i := t] ! b) = Some q"
  have eq: "ticket (ts[i := t] ! k) = ticket (ts ! k)" if "k < length ts" for k
  proof (cases "k = i")
    case True
    then show ?thesis using i t by simp
  next
    case False
    then show ?thesis by simp
  qed
  from ab b have a': "a < length ts" and b': "b < length ts" by simp_all
  from p q have "ticket (ts ! a) = Some p" "ticket (ts ! b) = Some q"
    using eq[OF a'] eq[OF b'] by simp_all
  with m ab b' show "p < q" unfolding tickets_mono_def by blast
qed

lemma grants_ok_snoc:
  assumes g: "grants_ok g ts" and t: "\<forall>p. t \<noteq> Returned (Resolver p)"
  shows "grants_ok g (ts @ [t])"
  unfolding grants_ok_def
proof (intro conjI allI)
  show "sorted_wrt (<) g" using g by (simp add: grants_ok_def)
  fix i
  have mem: "i \<in> set g \<longleftrightarrow> i < length ts \<and> (\<exists>p. ts ! i = Returned (Resolver p))"
    using g by (simp add: grants_ok_def)
  show "i \<in> set g \<longleftrightarrow>
        i < length (ts @ [t]) \<and> (\<exists>p. (ts @ [t]) ! i = Returned (Resolver p))"
  proof (cases "i < length ts")
    case True
    then show ?thesis using mem by (simp add: nth_append)
  next
    case False
    then have "i \<notin> set g" using mem by simp
    moreover have "\<not> (i < length (ts @ [t]) \<and> (\<exists>p. (ts @ [t]) ! i = Returned (Resolver p)))"
    proof (cases "i = length ts")
      case True
      then show ?thesis using t by simp
    next
      case False
      with \<open>\<not> i < length ts\<close> show ?thesis by simp
    qed
    ultimately show ?thesis by simp
  qed
qed

lemma mutex_inv_bypass:
  assumes "mutex_inv s"
  shows "mutex_inv (mutex_obtain True s)"
proof -
  let ?s' = "mutex_obtain True s"
  have f: "mtasks ?s' = mtasks s @ [Returned ReleaseStub]" "mpromises ?s' = mpromises s"
    "m_lastPromise ?s' = m_lastPromise s" "mgrants ?s' = mgrants s"
    by (simp_all add: mutex_obtain_def)
  have a: "awaiting_ok (mpromises ?s') (mtasks ?s')"
    using assms unfolding f mutex_inv_def awaiting_ok_def by auto
  have r: "returned_ok (mpromises ?s') (mtasks ?s')"
    using assms unfolding f mutex_inv_def returned_ok_def by auto
  have t: "tickets_mono (mtasks ?s')"
    using assms unfolding f mutex_inv_def by (simp add: tickets_mono_snoc_None)
  have g: "grants_ok (mgrants ?s') (mtasks ?s')"
    using assms unfolding f mutex_inv_def by (simp add: grants_ok_snoc)
  have "mpromises s \<noteq> []" "m_lastPromise s = length (mpromises s) - 1"
    "down_closed (mpromises s)"
    using assms by (simp_all add: mutex_inv_def)
  then show ?thesis using a r t g unfolding mutex_inv_def by (simp only: f simp_thms)
qed

lemma mutex_inv_queue:
  assumes inv: "mutex_inv s"
  shows "mutex_inv (mutex_obtain False s)"
proof -
  let ?s' = "mutex_obtain False s"
  let ?h = "mpromises s"
  let ?n = "length ?h"
  have ne: "?h \<noteq> []" and lp: "m_lastPromise s = ?n - 1"
    and a: "awaiting_ok ?h (mtasks s)" and r: "returned_ok ?h (mtasks s)"
    and d: "down_closed ?h" and t: "tickets_mono (mtasks s)"
    and g: "grants_ok (mgrants s) (mtasks s)"
    using inv by (simp_all add: mutex_inv_def)
  have f: "mtasks ?s' = mtasks s @ [Awaiting (?n - 1) (Resolver ?n)]"
    "mpromises ?s' = ?h @ [Pending]" "m_lastPromise ?s' = ?n" "mgrants ?s' = mgrants s"
    using lp by (simp_all add: mutex_obtain_def new_promise_def)
  have suc: "Suc (?n - 1) = ?n" using ne by simp
  have a': "awaiting_ok (?h @ [Pending]) (mtasks s @ [Awaiting (?n - 1) (Resolver ?n)])"
    unfolding awaiting_ok_def
  proof (intro ballI allI impI)
    fix u lp' tok
    assume u: "u \<in> set (mtasks s @ [Awaiting (?n - 1) (Resolver ?n)])"
      and e: "u = Awaiting lp' tok"
    show "tok = Resolver (Suc lp') \<and> Suc lp' < length (?h @ [Pending]) \<and>
          \<not> settled (?h @ [Pending]) (Suc lp')"
    proof (cases "u \<in> set (mtasks s)")
      case True
      with a e have "tok = Resolver (Suc lp') \<and> Suc lp' < ?n \<and> \<not> settled ?h (Suc lp')"
        unfolding awaiting_ok_def by blast
      then show ?thesis by (simp add: settled_snoc)
    next
      case False
      with u e have "lp' = ?n - 1" "tok = Resolver ?n" by simp_all
      then show ?thesis using suc by (simp add: settled_def)
    qed
  qed
  have r': "returned_ok (?h @ [Pending]) (mtasks s @ [Awaiting (?n - 1) (Resolver ?n)])"
    unfolding returned_ok_def
  proof (intro ballI allI impI)
    fix u p
    assume u: "u \<in> set (mtasks s @ [Awaiting (?n - 1) (Resolver ?n)])"
      and e: "u = Returned (Resolver p)"
    then have "u \<in> set (mtasks s)" by auto
    with r e have "0 < p \<and> p < ?n \<and> settled ?h (p - 1)" unfolding returned_ok_def by blast
    then show "0 < p \<and> p < length (?h @ [Pending]) \<and> settled (?h @ [Pending]) (p - 1)"
      by (simp add: settled_snoc)
  qed
  have d': "down_closed (?h @ [Pending])"
    using d by (simp add: down_closed_def settled_snoc)
  have b: "\<forall>u \<in> set (mtasks s). \<forall>p. ticket u = Some p \<longrightarrow> p < ?n"
    using ticket_bound[OF a r] by blast
  have t': "tickets_mono (mtasks s @ [Awaiting (?n - 1) (Resolver ?n)])"
    using t b by (intro tickets_mono_snoc_Some[where n = ?n]) simp_all
  have g': "grants_ok (mgrants s) (mtasks s @ [Awaiting (?n - 1) (Resolver ?n)])"
    using g by (intro grants_ok_snoc) simp_all
  show ?thesis unfolding mutex_inv_def f using a' r' d' t' g' by simp
qed

lemma mutex_inv_resume:
  assumes inv: "mutex_inv s" and step: "obtain_resume i s = Some s'"
  shows "mutex_inv s'"
proof -
  let ?h = "mpromises s"
  let ?ts = "mtasks s"
  have ne: "?h \<noteq> []" and lp: "m_lastPromise s = length ?h - 1"
    and a: "awaiting_ok ?h ?ts" and r: "returned_ok ?h ?ts"
    and d: "down_closed ?h" and t: "tickets_mono ?ts"
    and g: "grants_ok (mgrants s) ?ts"
    using inv by (simp_all add: mutex_inv_def)
  from step obtain l tok where i: "i < length ?ts" and ti: "?ts ! i = Awaiting l tok"
    and sl: "settled ?h l"
    and s': "s' = s\<lparr>mtasks := ?ts[i := Returned tok], mgrants := mgrants s @ [i]\<rparr>"
    by (auto simp: obtain_resume_def split: if_splits mtask.splits)
  have mem: "?ts ! i \<in> set ?ts" using i by simp
  with a ti have tok: "tok = Resolver (Suc l)" and lt: "Suc l < length ?h"
    and ns: "\<not> settled ?h (Suc l)"
    unfolding awaiting_ok_def by blast+
  have sub: "set (?ts[i := Returned tok]) \<subseteq> insert (Returned tok) (set ?ts)"
    by (rule set_update_subset_insert)
  have a': "awaiting_ok ?h (?ts[i := Returned tok])"
    using a sub unfolding awaiting_ok_def by blast
  have r': "returned_ok ?h (?ts[i := Returned tok])"
    unfolding returned_ok_def
  proof (intro ballI allI impI)
    fix u p
    assume u: "u \<in> set (?ts[i := Returned tok])" and e: "u = Returned (Resolver p)"
    show "0 < p \<and> p < length ?h \<and> settled ?h (p - 1)"
    proof (cases "u \<in> set ?ts")
      case True
      with r e show ?thesis unfolding returned_ok_def by blast
    next
      case False
      with u sub have "u = Returned tok" by blast
      with e tok have "p = Suc l" by simp
      then show ?thesis using lt sl by simp
    qed
  qed
  have t': "tickets_mono (?ts[i := Returned tok])"
    using t i by (rule tickets_mono_update) (simp add: ti tok)
  have srt: "sorted_wrt (<) (mgrants s)"
    and gm: "\<And>k. k \<in> set (mgrants s) \<longleftrightarrow>
               k < length ?ts \<and> (\<exists>p. ?ts ! k = Returned (Resolver p))"
    using g by (simp_all add: grants_ok_def)
  have before: "k < i" if k: "k \<in> set (mgrants s)" for k
  proof (rule ccontr)
    assume "\<not> k < i"
    from k gm obtain q where kl: "k < length ?ts" and kq: "?ts ! k = Returned (Resolver q)"
      by blast
    from kq ti have "k \<noteq> i" by auto
    with \<open>\<not> k < i\<close> have ik: "i < k" by simp
    have "ticket (?ts ! i) = Some (Suc l)" "ticket (?ts ! k) = Some q"
      using ti tok kq by simp_all
    with t ik kl have lq: "Suc l < q" unfolding tickets_mono_def by blast
    have "?ts ! k \<in> set ?ts" using kl by simp
    with r kq have "settled ?h (q - 1)" unfolding returned_ok_def by blast
    moreover have "Suc l \<le> q - 1" using lq by simp
    ultimately have "settled ?h (Suc l)" using d unfolding down_closed_def by blast
    with ns show False by simp
  qed
  have g': "grants_ok (mgrants s @ [i]) (?ts[i := Returned tok])"
    unfolding grants_ok_def
  proof (intro conjI allI)
    show "sorted_wrt (<) (mgrants s @ [i])"
      using srt before by (simp add: sorted_wrt_append)
    fix k
    show "k \<in> set (mgrants s @ [i]) \<longleftrightarrow>
          k < length (?ts[i := Returned tok]) \<and>
          (\<exists>p. ?ts[i := Returned tok] ! k = Returned (Resolver p))"
    proof (cases "k = i")
      case True
      then show ?thesis using i tok by simp
    next
      case False
      then show ?thesis using gm[of k] by simp
    qed
  qed
  show ?thesis unfolding mutex_inv_def s' using ne lp a' r' d t' g' by simp
qed

lemma mutex_inv_release:
  assumes inv: "mutex_inv s" and step: "release_call i s = Some s'"
  shows "mutex_inv s'"
proof -
  let ?h = "mpromises s"
  let ?ts = "mtasks s"
  have ne: "?h \<noteq> []" and lp: "m_lastPromise s = length ?h - 1"
    and a: "awaiting_ok ?h ?ts" and r: "returned_ok ?h ?ts"
    and d: "down_closed ?h" and t: "tickets_mono ?ts"
    and g: "grants_ok (mgrants s) ?ts"
    using inv by (simp_all add: mutex_inv_def)
  from step obtain tok where i: "i < length ?ts" and ti: "?ts ! i = Returned tok"
    and s': "s' = s\<lparr>mpromises := invoke tok ?h\<rparr>"
    by (auto simp: release_call_def split: if_splits mtask.splits)
  show ?thesis
  proof (cases tok)
    case ReleaseStub
    then have "s' = s" using s' by simp
    then show ?thesis using inv by simp
  next
    case (Resolver p)
    have mem: "?ts ! i \<in> set ?ts" using i by simp
    with r ti Resolver have p0: "0 < p" and pl: "p < length ?h" and sp: "settled ?h (p - 1)"
      unfolding returned_ok_def by blast+
    have st: "settled (resolve p ?h) x = (settled ?h x \<or> x = p)" for x
      using pl by (auto simp: settled_resolve)
    have a': "awaiting_ok (resolve p ?h) ?ts"
      unfolding awaiting_ok_def
    proof (intro ballI allI impI)
      fix u l tk
      assume u: "u \<in> set ?ts" and e: "u = Awaiting l tk"
      with a have 1: "tk = Resolver (Suc l)" and 2: "Suc l < length ?h"
        and 3: "\<not> settled ?h (Suc l)"
        unfolding awaiting_ok_def by blast+
      from u obtain j where j: "j < length ?ts" and uj: "?ts ! j = u"
        by (auto simp: in_set_conv_nth)
      have "Suc l \<noteq> p"
      proof
        assume eq: "Suc l = p"
        have tj: "ticket (?ts ! j) = Some p" using uj e 1 eq by simp
        have tI: "ticket (?ts ! i) = Some p" using ti Resolver by simp
        have "i \<noteq> j" using uj e ti by auto
        then consider "i < j" | "j < i" by linarith
        then show False
        proof cases
          case 1
          with t j tI tj have "p < p" unfolding tickets_mono_def by blast
          then show False by simp
        next
          case 2
          with t i tI tj have "p < p" unfolding tickets_mono_def by blast
          then show False by simp
        qed
      qed
      with 1 2 3 show "tk = Resolver (Suc l) \<and> Suc l < length (resolve p ?h) \<and>
          \<not> settled (resolve p ?h) (Suc l)"
        by (simp add: st)
    qed
    have r': "returned_ok (resolve p ?h) ?ts"
      using r unfolding returned_ok_def by (simp add: st)
    have d': "down_closed (resolve p ?h)"
      unfolding down_closed_def
    proof (intro allI impI)
      fix x y
      assume yx: "y \<le> x" and sx: "settled (resolve p ?h) x"
      show "settled (resolve p ?h) y"
      proof (cases "settled ?h x")
        case True
        with d yx have "settled ?h y" unfolding down_closed_def by blast
        then show ?thesis by (simp add: st)
      next
        case False
        with sx have xp: "x = p" by (simp add: st)
        show ?thesis
        proof (cases "y = p")
          case True
          then show ?thesis by (simp add: st)
        next
          case False
          with yx xp have "y \<le> p - 1" by simp
          with d sp have "settled ?h y" unfolding down_closed_def by blast
          then show ?thesis by (simp add: st)
        qed
      qed
    qed
    have ne': "resolve p ?h \<noteq> []" using ne by (metis length_resolve length_0_conv)
    show ?thesis unfolding mutex_inv_def s' Resolver
      using ne' lp a' r' d' t g by simp
  qed
qed

lemma mutex_inv_step: "mutex_inv s \<Longrightarrow> mutex_step e s = Some s' \<Longrightarrow> mutex_inv s'"
proof (cases e)
  case (Obtain b)
  assume "mutex_inv s" "mutex_step e s = Some s'"
  with Obtain show ?thesis
    by (cases b) (auto intro: mutex_inv_bypass mutex_inv_queue)
next
  case (Lock b)
  assume "mutex_inv s" "mutex_step e s = Some s'"
  with Lock show ?thesis
    by (cases b) (auto simp: lock_def intro: mutex_inv_bypass mutex_inv_queue)
next
  case (Resume i)
  assume "mutex_inv s" "mutex_step e s = Some s'"
  with Resume show ?thesis by (auto intro: mutex_inv_resume)
next
  case (Release i)
  assume "mutex_inv s" "mutex_step e s = Some s'"
  with Release show ?thesis by (auto intro: mutex_inv_release)
qed

lemma mutex_inv_run: "mutex_inv s \<Longrightarrow> mutex_run es s = Some s' \<Longrightarrow> mutex_inv s'"
  by (induction es arbitrary: s) (auto split: option.splits dest: mutex_inv_step)

lemma mutex_inv_reachable: "mutex_run es new_mutex = Some s \<Longrightarrow> mutex_inv s"
  using mutex_inv_new mutex_inv_run by blast

lemma sorted_takeWhile:
  "sorted_wrt (<) g \<Longrightarrow> i \<in> set g \<Longrightarrow> i < j \<Longrightarrow> i \<in> set (takeWhile (\<lambda>k. k \<noteq> j) g)"
  for i j :: nat
  by (induction g) auto

lemma mutex_fifo:
  assumes run: "mutex_run evs new_mutex = Some s"
    and qi: "queued s i" and ij: "i < j" and gj: "j \<in> set (mgrants s)"
  shows "granted_before (mgrants s) i j"
proof -
  let ?h = "mpromises s"
  let ?ts = "mtasks s"
  have inv: "mutex_inv s" using run by (rule mutex_inv_reachable)
  then have a: "awaiting_ok ?h ?ts" and r: "returned_ok ?h ?ts"
    and d: "down_closed ?h" and t: "tickets_mono ?ts"
    and g: "grants_ok (mgrants s) ?ts"
    by (simp_all add: mutex_inv_def)
  from g gj obtain q where jl: "j < length ?ts" and tj: "?ts ! j = Returned (Resolver q)"
    unfolding grants_ok_def by blast
  from qi obtain p where il: "i < length ?ts" and ti: "ticket (?ts ! i) = Some p"
    by (auto simp: queued_def)
  have "ticket (?ts ! j) = Some q" using tj by simp
  with t ij jl ti have pq: "p < q" unfolding tickets_mono_def by blast
  have "?ts ! j \<in> set ?ts" using jl by simp
  with r tj have "settled ?h (q - 1)" unfolding returned_ok_def by blast
  moreover have "p \<le> q - 1" using pq by simp
  ultimately have sp: "settled ?h p" using d unfolding down_closed_def by blast
  have im: "?ts ! i \<in> set ?ts" using il by simp
  have "?ts ! i = Returned (Resolver p)"
  proof (rule ccontr)
    assume "?ts ! i \<noteq> Returned (Resolver p)"
    with ti obtain l where l: "?ts ! i = Awaiting l (Resolver p)" by (auto simp: ticket_Some)
    with a im have "Resolver p = Resolver (Suc l) \<and> \<not> settled ?h (Suc l)"
      unfolding awaiting_ok_def by blast
    with sp show False by simp
  qed
  with g il have mem: "i \<in> set (mgrants s)" unfolding grants_ok_def by blast
  have srt: "sorted_wrt (<) (mgrants s)" using g by (simp add: grants_ok_def)
  show ?thesis unfolding granted_before_def using srt mem ij by (rule sorted_takeWhile)
qed

text \<open>
  C1. Mutual exclusion of \<open>Mutex\<close>: in every state reachable by calls of
  \<open>obtain\<close>/\<open>lock\<close>, resumptions of suspended calls and invocations of release tokens, at
  most one call has been granted and not yet released; and while a call holds the lock, no
  suspended \<open>obtain\<close> can resume.
\<close>

theorem mutex_mutual_exclusion:
  assumes run: "mutex_run evs new_mutex = Some s"
  shows "(\<forall>i j. holding s i \<longrightarrow> holding s j \<longrightarrow> i = j) \<and>
         (\<forall>i j. holding s i \<longrightarrow> obtain_resume j s = None)"
proof -
  let ?h = "mpromises s"
  let ?ts = "mtasks s"
  have inv: "mutex_inv s" using run by (rule mutex_inv_reachable)
  then have a: "awaiting_ok ?h ?ts" and r: "returned_ok ?h ?ts"
    and d: "down_closed ?h" and t: "tickets_mono ?ts"
    by (simp_all add: mutex_inv_def)
  have hold: "\<exists>p. i < length ?ts \<and> ?ts ! i = Returned (Resolver p) \<and> \<not> settled ?h p"
    if "holding s i" for i
    using that by (auto simp: holding_def split: mtask.splits token.splits)
  have later_settles: False
    if i: "i < length ?ts" "ticket (?ts ! i) = Some p" "\<not> settled ?h p"
      and j: "j < length ?ts" "?ts ! j = Returned (Resolver q)" and ij: "i < j"
    for i j p q
  proof -
    have "ticket (?ts ! j) = Some q" using j by simp
    with t ij i j have pq: "p < q" unfolding tickets_mono_def by blast
    have "?ts ! j \<in> set ?ts" using j(1) by simp
    with r j have "settled ?h (q - 1)" unfolding returned_ok_def by blast
    moreover have "p \<le> q - 1" using pq by simp
    ultimately have "settled ?h p" using d unfolding down_closed_def by blast
    with i show False by simp
  qed
  have one: "i = j" if hi: "holding s i" and hj: "holding s j" for i j
  proof (rule ccontr)
    assume ne: "i \<noteq> j"
    from hold[OF hi] obtain p where p: "i < length ?ts" "?ts ! i = Returned (Resolver p)"
      "\<not> settled ?h p" by blast
    from hold[OF hj] obtain q where q: "j < length ?ts" "?ts ! j = Returned (Resolver q)"
      "\<not> settled ?h q" by blast
    from ne consider "i < j" | "j < i" by linarith
    then show False
    proof cases
      case 1
      show False using later_settles[OF p(1) _ p(3) q(1) q(2) 1] p(2) by simp
    next
      case 2
      show False using later_settles[OF q(1) _ q(3) p(1) p(2) 2] q(2) by simp
    qed
  qed
  have none: "obtain_resume j s = None" if hi: "holding s i" for i j
  proof (rule ccontr)
    assume "obtain_resume j s \<noteq> None"
    then obtain l tok where j: "j < length ?ts" and tj: "?ts ! j = Awaiting l tok"
      and sl: "settled ?h l"
      by (auto simp: obtain_resume_def split: if_splits mtask.splits)
    have "?ts ! j \<in> set ?ts" using j by simp
    with a tj have tok: "tok = Resolver (Suc l)" and ns: "\<not> settled ?h (Suc l)"
      unfolding awaiting_ok_def by blast+
    from hold[OF hi] obtain p where p: "i < length ?ts" "?ts ! i = Returned (Resolver p)"
      "\<not> settled ?h p" by blast
    have ne: "i \<noteq> j" using p(2) tj by auto
    have tkj: "ticket (?ts ! j) = Some (Suc l)" using tj tok by simp
    have tki: "ticket (?ts ! i) = Some p" using p(2) by simp
    from ne consider "i < j" | "j < i" by linarith
    then show False
    proof cases
      case 1
      with t j tki tkj have "p < Suc l" unfolding tickets_mono_def by blast
      then have "p \<le> l" by simp
      with d sl have "settled ?h p" unfolding down_closed_def by blast
      with p(3) show False by simp
    next
      case 2
      show False using later_settles[OF j tkj ns p(1) p(2) 2] .
    qed
  qed
  show ?thesis using one none by blast
qed

theorem mutex_mutual_exclusion_witness:
  "mutex_run [Obtain False, Lock False, Obtain False, Resume 0, Release 0, Resume 1] new_mutex
     \<noteq> None \<and>
   holding (the (mutex_run
     [Obtain False, Lock False, Obtain False, Resume 0, Release 0, Resume 1] new_mutex)) 1 \<and>
   \<not> holding (the (mutex_run
     [Obtain False, Lock False, Obtain False, Resume 0, Release 0, Resume 1] new_mutex)) 0 \<and>
   obtain_resume 2 (the (mutex_run
     [Obtain False, Lock False, Obtain False, Resume 0, Release 0, Resume 1] new_mutex)) = None"
proof -
  let ?evs = "[Obtain False, Lock False, Obtain False, Resume 0, Release 0, Resume 1]"
  let ?s = "the (mutex_run ?evs new_mutex)"
  have ne: "mutex_run ?evs new_mutex \<noteq> None" by code_simp
  have r: "mutex_run ?evs new_mutex = Some ?s" using ne by (rule option.collapse[symmetric])
  have h: "holding ?s 1" by code_simp
  note th = mutex_mutual_exclusion[OF r]
  have n0: "\<not> holding ?s 0"
  proof
    assume "holding ?s 0"
    with th h have "(0::nat) = 1" by (elim conjE allE[of _ "0::nat"] allE[of _ "1::nat"]) simp
    then show False by simp
  qed
  have n2: "obtain_resume 2 ?s = None"
    using th[THEN conjunct2, rule_format, OF h] .
  show ?thesis using ne h n0 n2 by (intro conjI)
qed

text \<open>
  C9. \<open>obtain(true)\<close> returns the no-op token at once, whatever the state of the lock:
  the tail promise, the promises and the grant order are unchanged, invoking the returned
  token changes nothing, and every resumption or release of another call does after the
  bypassed call exactly what it does without it.
\<close>

theorem bypass_neither_waits_nor_blocks:
  "m_lastPromise (mutex_obtain True s) = m_lastPromise s \<and>
   mpromises (mutex_obtain True s) = mpromises s \<and>
   mgrants (mutex_obtain True s) = mgrants s \<and>
   mtasks (mutex_obtain True s) = mtasks s @ [Returned ReleaseStub] \<and>
   release_call (length (mtasks s)) (mutex_obtain True s) = Some (mutex_obtain True s) \<and>
   (\<forall>j. obtain_resume j (mutex_obtain True s) =
        map_option (mutex_obtain True) (obtain_resume j s)) \<and>
   (\<forall>j < length (mtasks s). release_call j (mutex_obtain True s) =
        map_option (mutex_obtain True) (release_call j s)) \<and>
   (\<forall>j. holding (mutex_obtain True s) j = holding s j)"
proof (intro conjI allI impI)
  show "m_lastPromise (mutex_obtain True s) = m_lastPromise s"
    "mpromises (mutex_obtain True s) = mpromises s"
    "mgrants (mutex_obtain True s) = mgrants s"
    and ts: "mtasks (mutex_obtain True s) = mtasks s @ [Returned ReleaseStub]"
    by (simp_all add: mutex_obtain_def)
  show "release_call (length (mtasks s)) (mutex_obtain True s) = Some (mutex_obtain True s)"
    by (simp add: release_call_def mutex_obtain_def)
  show "obtain_resume j (mutex_obtain True s) =
        map_option (mutex_obtain True) (obtain_resume j s)" for j
  proof (cases "j < length (mtasks s)")
    case True
    then show ?thesis
      by (simp add: obtain_resume_def mutex_obtain_def nth_append list_update_append1
            split: mtask.splits)
  next
    case False
    then show ?thesis
      by (cases "j = length (mtasks s)") (simp_all add: obtain_resume_def mutex_obtain_def)
  qed
  show "release_call j (mutex_obtain True s) =
        map_option (mutex_obtain True) (release_call j s)" if "j < length (mtasks s)" for j
    using that
    by (simp add: release_call_def mutex_obtain_def nth_append split: mtask.splits)
  show "holding (mutex_obtain True s) j = holding s j" for j
  proof (cases "j < length (mtasks s)")
    case True
    then show ?thesis
      by (simp add: holding_def mutex_obtain_def nth_append split: mtask.splits token.splits)
  next
    case False
    then show ?thesis
      by (cases "j = length (mtasks s)") (simp_all add: holding_def mutex_obtain_def)
  qed
qed

theorem bypass_neither_waits_nor_blocks_witness:
  "holding (mutex_obtain False new_mutex
              \<lparr>mtasks := [Returned (Resolver 1)], mgrants := [0]\<rparr>) 0 \<and>
   mtasks (mutex_obtain True (mutex_obtain False new_mutex
              \<lparr>mtasks := [Returned (Resolver 1)], mgrants := [0]\<rparr>)) ! 1 = Returned ReleaseStub \<and>
   release_call 0 (mutex_obtain True (mutex_obtain False new_mutex
              \<lparr>mtasks := [Returned (Resolver 1)], mgrants := [0]\<rparr>)) =
     map_option (mutex_obtain True) (release_call 0 (mutex_obtain False new_mutex
              \<lparr>mtasks := [Returned (Resolver 1)], mgrants := [0]\<rparr>))"
proof -
  let ?s = "mutex_obtain False new_mutex\<lparr>mtasks := [Returned (Resolver 1)], mgrants := [0]\<rparr>"
  have l: "0 < length (mtasks ?s)" by simp
  have h: "holding ?s 0" by code_simp
  have "mtasks (mutex_obtain True ?s) = mtasks ?s @ [Returned ReleaseStub]"
    and "release_call 0 (mutex_obtain True ?s) =
         map_option (mutex_obtain True) (release_call 0 ?s)"
    using bypass_neither_waits_nor_blocks[of ?s] l by blast+
  then show ?thesis using h by simp
qed

section \<open>Properties of MutexRW\<close>

lemma rw_run_append:
  "rw_run (xs @ ys) s = (case rw_run xs s of None \<Rightarrow> None | Some s' \<Rightarrow> rw_run ys s')"
  by (induction xs arbitrary: s) (auto split: option.splits)

lemma obtainRO_body_flags:
  assumes "obtainRO_body s = (t, s')" and "\<not> (rwAccess s \<and> 0 < roAccessCnt s)"
  shows "\<not> (rwAccess s' \<and> 0 < roAccessCnt s')"
  using assms by (auto simp: obtainRO_body_def Let_def split: if_splits)

lemma obtainRW_body_flags:
  assumes "obtainRW_body i p s = (t, s')" and "\<not> (rwAccess s \<and> 0 < roAccessCnt s)"
  shows "\<not> (rwAccess s' \<and> 0 < roAccessCnt s')"
  using assms by (auto simp: obtainRW_body_def split: if_splits)

lemma rw_step_flags:
  assumes "rw_step e s = Some s'" and "\<not> (rwAccess s \<and> 0 < roAccessCnt s)"
  shows "\<not> (rwAccess s' \<and> 0 < roAccessCnt s')"
proof (cases e)
  case ObtainRO
  obtain t s1 where b: "obtainRO_body s = (t, s1)" by (cases "obtainRO_body s")
  with ObtainRO assms(1) have "s' = s1\<lparr>rwtasks := rwtasks s1 @ [t]\<rparr>"
    by (simp add: obtainRO_def)
  with obtainRO_body_flags[OF b assms(2)] show ?thesis by simp
next
  case LockRO
  obtain t s1 where b: "obtainRO_body s = (t, s1)" by (cases "obtainRO_body s")
  with LockRO assms(1) have "s' = s1\<lparr>rwtasks := rwtasks s1 @ [t]\<rparr>"
    by (simp add: obtainRO_def lockRO_def)
  with obtainRO_body_flags[OF b assms(2)] show ?thesis by simp
next
  case ObtainRW
  with assms show ?thesis by (auto simp: obtainRW_def Let_def)
next
  case LockRW
  with assms show ?thesis by (auto simp: obtainRW_def lockRW_def Let_def)
next
  case (RWResume i)
  with assms(1) have r: "rw_resume i s = Some s'" by simp
  then have i: "i < length (rwtasks s)" by (simp add: rw_resume_def split: if_splits)
  show ?thesis
  proof (cases "rwtasks s ! i")
    case (RO_Await p)
    obtain t s1 where b: "obtainRO_body s = (t, s1)" by (cases "obtainRO_body s")
    with r i RO_Await have "s' = s1\<lparr>rwtasks := (rwtasks s1)[i := t]\<rparr>"
      by (simp add: rw_resume_def split: if_splits)
    with obtainRO_body_flags[OF b assms(2)] show ?thesis by simp
  next
    case (RO_Returned p)
    with r i show ?thesis by (simp add: rw_resume_def)
  next
    case (RW_AwaitPrev pr p)
    obtain t s1 where b: "obtainRW_body i p s = (t, s1)" by (cases "obtainRW_body i p s")
    with r i RW_AwaitPrev have "s' = s1\<lparr>rwtasks := (rwtasks s1)[i := t]\<rparr>"
      by (simp add: rw_resume_def split: if_splits)
    with obtainRW_body_flags[OF b assms(2)] show ?thesis by simp
  next
    case (RW_AwaitRO a p)
    obtain t s1 where b: "obtainRW_body i p s = (t, s1)" by (cases "obtainRW_body i p s")
    with r i RW_AwaitRO have "s' = s1\<lparr>rwtasks := (rwtasks s1)[i := t]\<rparr>"
      by (simp add: rw_resume_def split: if_splits)
    with obtainRW_body_flags[OF b assms(2)] show ?thesis by simp
  next
    case (RW_Returned p)
    with r i show ?thesis by (simp add: rw_resume_def)
  qed
next
  case (RWRelease i)
  with assms show ?thesis
    by (auto simp: rw_release_def split: if_splits rwtask.splits)
next
  case (React k)
  with assms show ?thesis
    by (auto simp: rw_react_def split: if_splits reaction.splits)
next
  case (SettleAll a)
  with assms show ?thesis
    by (auto simp: rw_settle_all_def split: if_splits rwcell.splits pstate.splits)
qed

lemma rw_run_flags:
  "rw_run es s = Some s' \<Longrightarrow> \<not> (rwAccess s \<and> 0 < roAccessCnt s) \<Longrightarrow>
   \<not> (rwAccess s' \<and> 0 < roAccessCnt s')"
proof (induction es arbitrary: s)
  case Nil
  then show ?case by simp
next
  case (Cons e es)
  from Cons.prems(1) obtain s1 where s1: "rw_step e s = Some s1" "rw_run es s1 = Some s'"
    by (auto split: option.splits)
  show ?case using Cons.IH[OF s1(2) rw_step_flags[OF s1(1) Cons.prems(2)]] .
qed

lemma readers_overlap_step:
  assumes "readers_overlap n s"
  shows "readers_overlap (Suc n) (obtainRO s)"
proof -
  let ?h = "rwpromises s"
  let ?s' = "obtainRO s"
  from assms have na: "\<not> rwAccess s" and c: "roAccessCnt s = int n"
    and l: "length (rwtasks s) = n" and rd: "\<forall>i < n. reading s i"
    and b: "\<forall>t \<in> set (rwtasks s). \<forall>p. t = RO_Returned p \<longrightarrow> p < length ?h"
    by (simp_all add: readers_overlap_def)
  have f: "rwtasks ?s' = rwtasks s @ [RO_Returned (length ?h)]"
    "rwpromises ?s' = ?h @ [Plain Pending, AllOf [length ?h, m_lastROPromise s] Pending]"
    "roAccessCnt ?s' = int (Suc n)" "\<not> rwAccess ?s'"
    using na c by (simp_all add: obtainRO_def obtainRO_body_def Let_def)
  have old: "reading ?s' i" if "i < n" for i
  proof -
    from rd that have r: "reading s i" by simp
    then obtain p where p: "rwtasks s ! i = RO_Returned p" "\<not> rw_settled ?h p"
      by (auto simp: reading_def split: rwtask.splits)
    have "rwtasks s ! i \<in> set (rwtasks s)" using that l by simp
    with b p(1) have "p < length ?h" by blast
    with p(2) have "\<not> rw_settled (rwpromises ?s') p"
      by (simp add: f rw_settled_def nth_append)
    then show ?thesis using that l p(1) by (simp add: reading_def f nth_append)
  qed
  have new: "reading ?s' n"
    using l by (simp add: reading_def f nth_append rw_settled_def)
  have all: "\<forall>i < Suc n. reading ?s' i"
    using old new by (auto simp: less_Suc_eq)
  have b': "\<forall>t \<in> set (rwtasks ?s'). \<forall>p. t = RO_Returned p \<longrightarrow> p < length (rwpromises ?s')"
    using b by (auto simp: f)
  show ?thesis unfolding readers_overlap_def using f(3,4) l all b' by (simp add: f(1))
qed

lemma readers_overlap_run:
  "\<exists>s. rw_run (replicate n ObtainRO) new_mutexrw = Some s \<and> readers_overlap n s"
proof (induction n)
  case 0
  show ?case by (simp add: readers_overlap_def new_mutexrw_def)
next
  case (Suc n)
  then obtain s where s: "rw_run (replicate n ObtainRO) new_mutexrw = Some s"
    "readers_overlap n s" by blast
  have "replicate (Suc n) ObtainRO = replicate n ObtainRO @ [ObtainRO]"
    by (simp add: replicate_append_same)
  then have "rw_run (replicate (Suc n) ObtainRO) new_mutexrw = Some (obtainRO s)"
    using s(1) by (simp add: rw_run_append)
  with readers_overlap_step[OF s(2)] show ?case by blast
qed

lemma wset_snoc_None: "wthis t = None \<Longrightarrow> wset (ts @ [t]) = wset ts"
  by (auto simp: wset_def)

lemma wset_snoc_Some: "wthis t = Some p \<Longrightarrow> wset (ts @ [t]) = insert p (wset ts)"
  by (auto simp: wset_def)

lemma rset_snoc_None: "rtok t = None \<Longrightarrow> rset (ts @ [t]) = rset ts"
  by (auto simp: rset_def)

lemma rset_snoc_Some: "rtok t = Some p \<Longrightarrow> rset (ts @ [t]) = insert p (rset ts)"
  by (auto simp: rset_def)

lemma wset_mem: "t \<in> set ts \<Longrightarrow> wthis t = Some p \<Longrightarrow> p \<in> wset ts"
  by (auto simp: wset_def)

lemma wset_nth: "p \<in> wset ts \<Longrightarrow> \<exists>i < length ts. wthis (ts ! i) = Some p"
  by (auto simp: wset_def in_set_conv_nth)

lemma wset_update:
  assumes i: "i < length ts" and e: "wthis t = wthis (ts ! i)"
  shows "wset (ts[i := t]) = wset ts"
proof (intro set_eqI iffI)
  fix p
  assume "p \<in> wset (ts[i := t])"
  then obtain u where u: "u \<in> set (ts[i := t])" "wthis u = Some p"
    unfolding wset_def by blast
  from u(1) have "u = t \<or> u \<in> set ts" using set_update_subset_insert by fastforce
  then show "p \<in> wset ts"
  proof
    assume "u = t"
    with u(2) e have "wthis (ts ! i) = Some p" by simp
    moreover have "ts ! i \<in> set ts" using i by simp
    ultimately show ?thesis by (rule wset_mem[rotated])
  next
    assume "u \<in> set ts"
    then show ?thesis using u(2) by (rule wset_mem)
  qed
next
  fix p
  assume "p \<in> wset ts"
  then obtain k where k: "k < length ts" "wthis (ts ! k) = Some p"
    using wset_nth by blast
  have "wthis (ts[i := t] ! k) = Some p"
  proof (cases "k = i")
    case True
    then show ?thesis using i e k(2) by simp
  next
    case False
    then show ?thesis using k(2) by simp
  qed
  moreover have "ts[i := t] ! k \<in> set (ts[i := t])" using k(1) by simp
  ultimately show "p \<in> wset (ts[i := t])" by (rule wset_mem[rotated])
qed

lemma rset_update_sub:
  "rset (ts[i := t]) \<subseteq> rset ts \<union> (case rtok t of None \<Rightarrow> {} | Some p \<Rightarrow> {p})"
proof
  fix p
  assume "p \<in> rset (ts[i := t])"
  then obtain u where u: "u \<in> set (ts[i := t])" "rtok u = Some p"
    unfolding rset_def by blast
  from u(1) have "u = t \<or> u \<in> set ts" using set_update_subset_insert by fastforce
  then show "p \<in> rset ts \<union> (case rtok t of None \<Rightarrow> {} | Some p \<Rightarrow> {p})"
    using u(2) unfolding rset_def by auto
qed

lemma wmono_snoc_None: "wmono ts \<Longrightarrow> wthis t = None \<Longrightarrow> wmono (ts @ [t])"
  unfolding wmono_def
proof (intro allI impI)
  fix i j p q
  assume m: "\<forall>i j p q. i < j \<longrightarrow> j < length ts \<longrightarrow> wthis (ts ! i) = Some p \<longrightarrow>
        wthis (ts ! j) = Some q \<longrightarrow> p < q"
    and n: "wthis t = None" and ij: "i < j" and j: "j < length (ts @ [t])"
    and p: "wthis ((ts @ [t]) ! i) = Some p" and q: "wthis ((ts @ [t]) ! j) = Some q"
  from q n have "j \<noteq> length ts" by auto
  with j have j': "j < length ts" by simp
  with ij p q have "wthis (ts ! i) = Some p" "wthis (ts ! j) = Some q"
    by (simp_all add: nth_append)
  with m ij j' show "p < q" by blast
qed

lemma wmono_snoc_Some:
  assumes m: "wmono ts" and t: "wthis t = Some n" and b: "\<forall>p \<in> wset ts. p < n"
  shows "wmono (ts @ [t])"
  unfolding wmono_def
proof (intro allI impI)
  fix i j p q
  assume ij: "i < j" and j: "j < length (ts @ [t])"
    and p: "wthis ((ts @ [t]) ! i) = Some p" and q: "wthis ((ts @ [t]) ! j) = Some q"
  show "p < q"
  proof (cases "j < length ts")
    case True
    with ij p q have "wthis (ts ! i) = Some p" "wthis (ts ! j) = Some q"
      by (simp_all add: nth_append)
    with m ij True show ?thesis unfolding wmono_def by blast
  next
    case False
    with j have je: "j = length ts" by simp
    with q t have qn: "q = n" by simp
    from ij je have i: "i < length ts" by simp
    with p have "wthis (ts ! i) = Some p" by (simp add: nth_append)
    moreover from i have "ts ! i \<in> set ts" by simp
    ultimately have "p \<in> wset ts" by (rule wset_mem[rotated])
    then show ?thesis using b qn by blast
  qed
qed

lemma wmono_update:
  assumes m: "wmono ts" and i: "i < length ts" and t: "wthis t = wthis (ts ! i)"
  shows "wmono (ts[i := t])"
  unfolding wmono_def
proof (intro allI impI)
  fix a b p q
  assume ab: "a < b" and b: "b < length (ts[i := t])"
    and p: "wthis (ts[i := t] ! a) = Some p" and q: "wthis (ts[i := t] ! b) = Some q"
  have eq: "wthis (ts[i := t] ! k) = wthis (ts ! k)" if "k < length ts" for k
  proof (cases "k = i")
    case True
    then show ?thesis using i t by simp
  next
    case False
    then show ?thesis by simp
  qed
  from ab b have a': "a < length ts" and b': "b < length ts" by simp_all
  from p q have "wthis (ts ! a) = Some p" "wthis (ts ! b) = Some q"
    using eq[OF a'] eq[OF b'] by simp_all
  with m ab b' show "p < q" unfolding wmono_def by blast
qed

lemma wmono_distinct:
  assumes "wmono ts" "i < length ts" "j < length ts" "wthis (ts ! i) = Some p"
    "wthis (ts ! j) = Some p"
  shows "i = j"
proof (rule ccontr)
  assume "i \<noteq> j"
  then consider "i < j" | "j < i" by linarith
  then show False
  proof cases
    case 1
    with assms have "p < p" unfolding wmono_def by blast
    then show False by simp
  next
    case 2
    with assms have "p < p" unfolding wmono_def by blast
    then show False by simp
  qed
qed

lemma wgrants_ok_snoc:
  assumes g: "wgrants_ok g ts" and t: "\<forall>p. t \<noteq> RW_Returned p"
  shows "wgrants_ok g (ts @ [t])"
  unfolding wgrants_ok_def
proof (intro conjI allI)
  show "sorted_wrt (<) g" using g by (simp add: wgrants_ok_def)
  fix i
  have mem: "i \<in> set g \<longleftrightarrow> i < length ts \<and> (\<exists>p. ts ! i = RW_Returned p)"
    using g by (simp add: wgrants_ok_def)
  show "i \<in> set g \<longleftrightarrow> i < length (ts @ [t]) \<and> (\<exists>p. (ts @ [t]) ! i = RW_Returned p)"
  proof (cases "i < length ts")
    case True
    then show ?thesis using mem by (simp add: nth_append)
  next
    case False
    then have "i \<notin> set g" using mem by simp
    moreover have "\<not> (i < length (ts @ [t]) \<and> (\<exists>p. (ts @ [t]) ! i = RW_Returned p))"
    proof (cases "i = length ts")
      case True
      then show ?thesis using t by simp
    next
      case False
      with \<open>\<not> i < length ts\<close> show ?thesis by simp
    qed
    ultimately show ?thesis by simp
  qed
qed

lemma wgrants_ok_update:
  assumes g: "wgrants_ok g ts" and i: "i < length ts"
    and o: "\<forall>p. ts ! i \<noteq> RW_Returned p" and t: "\<forall>p. t \<noteq> RW_Returned p"
  shows "wgrants_ok g (ts[i := t])"
  unfolding wgrants_ok_def
proof (intro conjI allI)
  show "sorted_wrt (<) g" using g by (simp add: wgrants_ok_def)
  fix k
  have mem: "k \<in> set g \<longleftrightarrow> k < length ts \<and> (\<exists>p. ts ! k = RW_Returned p)"
    using g by (simp add: wgrants_ok_def)
  show "k \<in> set g \<longleftrightarrow> k < length (ts[i := t]) \<and> (\<exists>p. ts[i := t] ! k = RW_Returned p)"
  proof (cases "k = i")
    case True
    then show ?thesis using mem o t i by simp
  next
    case False
    then show ?thesis using mem by simp
  qed
qed

lemma rw_inv_new: "rw_inv new_mutexrw"
  by (simp add: rw_inv_def new_mutexrw_def heap_ok_def chain_ok_def wmono_def wgrants_ok_def
        wset_def rset_def rw_settled_def)

lemma heap_chain_cong:
  assumes ho: "heap_ok h ts mn" and co: "chain_ok h ts"
    and len: "length h \<le> length h'"
    and plain: "\<forall>p < length h. \<forall>st. h ! p = Plain st \<longrightarrow> (\<exists>st'. h' ! p = Plain st')"
    and same: "\<forall>p \<in> insert 0 (wset ts). rw_settled h' p = rw_settled h p"
  shows "heap_ok h' ts mn \<and> chain_ok h' ts"
proof
  have h1: "mn < length h" and h2: "\<forall>p \<in> wset ts \<union> rset ts. 0 < p \<and> p < length h"
    and h3: "\<forall>p \<in> wset ts. \<exists>st. h ! p = Plain st" and h4: "wset ts \<inter> rset ts = {}"
    and h5: "\<forall>p \<in> wset ts. p \<le> mn" and h6: "mn = 0 \<or> mn \<in> wset ts"
    and h7: "rw_settled h 0"
    using ho by (simp_all add: heap_ok_def)
  show "heap_ok h' ts mn"
    unfolding heap_ok_def
  proof (intro conjI)
    show "mn < length h'" using h1 len by simp
    show "\<forall>p \<in> wset ts \<union> rset ts. 0 < p \<and> p < length h'"
    proof
      fix p assume "p \<in> wset ts \<union> rset ts"
      with h2 have "0 < p \<and> p < length h" by (rule bspec)
      then show "0 < p \<and> p < length h'" using len by simp
    qed
    show "\<forall>p \<in> wset ts. \<exists>st. h' ! p = Plain st"
    proof
      fix p assume p: "p \<in> wset ts"
      with h2 h3 have "p < length h" "\<exists>st. h ! p = Plain st" by auto
      with plain show "\<exists>st. h' ! p = Plain st" by blast
    qed
    show "wset ts \<inter> rset ts = {}" "\<forall>p \<in> wset ts. p \<le> mn" "mn = 0 \<or> mn \<in> wset ts"
      using h4 h5 h6 by simp_all
    show "rw_settled h' 0" using h7 same by simp
  qed
  have eq: "rw_settled h' p = rw_settled h p" if "p \<in> wset ts" for p
    using same that by simp
  have thisw: "q \<in> wset ts" if "t \<in> set ts" "wthis t = Some q" for t q
    using that by (rule wset_mem)
  show "chain_ok h' ts"
    unfolding chain_ok_def
  proof (intro conjI ballI allI impI)
    fix p q
    assume "p \<in> wset ts" "q \<in> wset ts" "q \<le> p" "rw_settled h' p"
    then show "rw_settled h' q" using co eq unfolding chain_ok_def by metis
  next
    fix t q p
    assume t: "t \<in> set ts" "t = RW_Returned q \<or> (\<exists>a. t = RW_AwaitRO a q)"
      and p: "p \<in> wset ts" "p < q"
    with co have "rw_settled h p" unfolding chain_ok_def by blast
    then show "rw_settled h' p" using eq p(1) by simp
  next
    fix t pr q
    assume t: "t \<in> set ts" "t = RW_AwaitPrev pr q"
    with co have c: "pr < q \<and> \<not> rw_settled h q \<and> (pr = 0 \<or> pr \<in> wset ts) \<and>
          (\<forall>p \<in> wset ts. p < q \<longrightarrow> p \<le> pr)"
      unfolding chain_ok_def by blast
    have "q \<in> wset ts" using t by (intro thisw[of t]) simp_all
    with c eq show "pr < q" "\<not> rw_settled h' q" "pr = 0 \<or> pr \<in> wset ts"
      by simp_all
    fix p assume "p \<in> wset ts" "p < q"
    with c show "p \<le> pr" by blast
  next
    fix t a q
    assume t: "t \<in> set ts" "t = RW_AwaitRO a q"
    with co have "\<not> rw_settled h q" unfolding chain_ok_def by blast
    moreover have "q \<in> wset ts" using t by (intro thisw[of t]) simp_all
    ultimately show "\<not> rw_settled h' q" using eq by simp
  qed
qed

lemma tasks_reader_change:
  assumes ho: "heap_ok h ts mn" and co: "chain_ok h ts"
    and sub: "set ts' \<subseteq> insert t (set ts)" and w: "wset ts' = wset ts"
    and r: "rset ts' \<subseteq> rset ts \<union> (case rtok t of None \<Rightarrow> {} | Some p \<Rightarrow> {p})"
    and t: "wthis t = None"
    and tok: "\<forall>p. rtok t = Some p \<longrightarrow> 0 < p \<and> p < length h \<and> p \<notin> wset ts"
  shows "heap_ok h ts' mn \<and> chain_ok h ts'"
proof
  have h1: "mn < length h" and h2: "\<forall>p \<in> wset ts \<union> rset ts. 0 < p \<and> p < length h"
    and h3: "\<forall>p \<in> wset ts. \<exists>st. h ! p = Plain st" and h4: "wset ts \<inter> rset ts = {}"
    and h5: "\<forall>p \<in> wset ts. p \<le> mn" and h6: "mn = 0 \<or> mn \<in> wset ts"
    and h7: "rw_settled h 0"
    using ho by (simp_all add: heap_ok_def)
  show "heap_ok h ts' mn"
    unfolding heap_ok_def w
  proof (intro conjI)
    show "mn < length h" "\<forall>p \<in> wset ts. \<exists>st. h ! p = Plain st" "\<forall>p \<in> wset ts. p \<le> mn"
      "mn = 0 \<or> mn \<in> wset ts" "rw_settled h 0"
      using h1 h3 h5 h6 h7 by simp_all
    show "\<forall>p \<in> wset ts \<union> rset ts'. 0 < p \<and> p < length h"
    proof
      fix p assume "p \<in> wset ts \<union> rset ts'"
      then consider "p \<in> wset ts \<union> rset ts" | "rtok t = Some p"
        using r by (auto split: option.splits)
      then show "0 < p \<and> p < length h"
      proof cases
        case 1
        with h2 show ?thesis by (rule bspec)
      next
        case 2
        with tok show ?thesis by blast
      qed
    qed
    show "wset ts \<inter> rset ts' = {}"
    proof (rule ccontr)
      assume "wset ts \<inter> rset ts' \<noteq> {}"
      then obtain p where p: "p \<in> wset ts" "p \<in> rset ts'" by blast
      from p(2) r consider "p \<in> rset ts" | "rtok t = Some p" by (auto split: option.splits)
      then show False
      proof cases
        case 1
        with h4 p(1) show False by blast
      next
        case 2
        with tok p(1) show False by blast
      qed
    qed
  qed
  have old: "u \<in> set ts" if "u \<in> set ts'" "wthis u \<noteq> None" for u
    using that sub t by auto
  show "chain_ok h ts'"
    unfolding chain_ok_def w
  proof (intro conjI ballI allI impI)
    fix p q
    assume "p \<in> wset ts" "q \<in> wset ts" "q \<le> p" "rw_settled h p"
    then show "rw_settled h q" using co unfolding chain_ok_def by blast
  next
    fix u q p
    assume u: "u \<in> set ts'" "u = RW_Returned q \<or> (\<exists>a. u = RW_AwaitRO a q)"
      and p: "p \<in> wset ts" "p < q"
    from u have "u \<in> set ts" by (intro old) auto
    with u(2) p co show "rw_settled h p" unfolding chain_ok_def by blast
  next
    fix u pr q
    assume u: "u \<in> set ts'" "u = RW_AwaitPrev pr q"
    then have "u \<in> set ts" by (intro old) auto
    with u(2) co have c: "pr < q \<and> \<not> rw_settled h q \<and> (pr = 0 \<or> pr \<in> wset ts) \<and>
          (\<forall>p \<in> wset ts. p < q \<longrightarrow> p \<le> pr)"
      unfolding chain_ok_def by blast
    then show "pr < q" "\<not> rw_settled h q" "pr = 0 \<or> pr \<in> wset ts" by simp_all
    fix p assume "p \<in> wset ts" "p < q"
    with c show "p \<le> pr" by blast
  next
    fix u a q
    assume u: "u \<in> set ts'" "u = RW_AwaitRO a q"
    then have "u \<in> set ts" by (intro old) auto
    with u(2) co show "\<not> rw_settled h q" unfolding chain_ok_def by blast
  qed
qed

lemma rw_settled_append: "p < length h \<Longrightarrow> rw_settled (h @ cs) p = rw_settled h p"
  by (simp add: rw_settled_def nth_append)

lemma rw_settled_resolve:
  "rw_settled (rw_resolve p h) x = (rw_settled h x \<or> (x = p \<and> p < length h \<and> h ! p = Plain Pending))"
  by (auto simp: rw_settled_def rw_resolve_def nth_list_update)

lemma length_rw_resolve [simp]: "length (rw_resolve p h) = length h"
  by (simp add: rw_resolve_def)

lemma plain_rw_resolve:
  "x < length h \<Longrightarrow> h ! x = Plain st \<Longrightarrow> \<exists>st'. rw_resolve p h ! x = Plain st'"
  by (auto simp: rw_resolve_def nth_list_update)

lemma obtainRO_body_inv:
  assumes b: "obtainRO_body s = (t, s1)" and inv: "rw_inv s"
  shows "heap_ok (rwpromises s1) (rwtasks s) (m_nextRWPromise s) \<and>
         chain_ok (rwpromises s1) (rwtasks s) \<and>
         wthis t = None \<and> (\<forall>p. t \<noteq> RW_Returned p) \<and>
         (\<forall>p. rtok t = Some p \<longrightarrow>
            0 < p \<and> p < length (rwpromises s1) \<and> p \<notin> wset (rwtasks s)) \<and>
         rwtasks s1 = rwtasks s \<and> m_nextRWPromise s1 = m_nextRWPromise s \<and>
         rwgrants s1 = rwgrants s"
proof -
  let ?h = "rwpromises s"
  let ?ts = "rwtasks s"
  have ho: "heap_ok ?h ?ts (m_nextRWPromise s)" and co: "chain_ok ?h ?ts"
    using inv by (simp_all add: rw_inv_def)
  have h1: "m_nextRWPromise s < length ?h"
    and h2: "\<forall>p \<in> wset ?ts \<union> rset ?ts. 0 < p \<and> p < length ?h"
    using ho by (simp_all add: heap_ok_def)
  show ?thesis
  proof (cases "rwAccess s")
    case True
    with b have "t = RO_Await (m_lastRWPromise s)" "s1 = s" by (auto simp: obtainRO_body_def)
    with ho co show ?thesis by simp
  next
    case False
    let ?h' = "?h @ [Plain Pending, AllOf [length ?h, m_lastROPromise s] Pending]"
    from False b have t: "t = RO_Returned (length ?h)"
      and s1: "rwpromises s1 = ?h'" "rwtasks s1 = ?ts"
        "m_nextRWPromise s1 = m_nextRWPromise s" "rwgrants s1 = rwgrants s"
      by (auto simp: obtainRO_body_def Let_def)
    have bw: "0 < p \<and> p < length ?h" if "p \<in> wset ?ts" for p using h2 that by blast
    have lt: "p < length ?h" if "p \<in> insert 0 (wset ?ts)" for p
      using that h1 bw by auto
    have same: "\<forall>p \<in> insert 0 (wset ?ts). rw_settled ?h' p = rw_settled ?h p"
      using lt by (simp add: rw_settled_append)
    have plain: "\<forall>p < length ?h. \<forall>st. ?h ! p = Plain st \<longrightarrow> (\<exists>st'. ?h' ! p = Plain st')"
      by (simp add: nth_append)
    have "heap_ok ?h' ?ts (m_nextRWPromise s) \<and> chain_ok ?h' ?ts"
      using ho co _ plain same by (rule heap_chain_cong) simp
    moreover have "length ?h \<notin> wset ?ts" using bw by auto
    moreover have "0 < length ?h" using h1 by (cases ?h) simp_all
    ultimately show ?thesis using t s1 by simp
  qed
qed

lemma rw_inv_obtainRO:
  assumes inv: "rw_inv s"
  shows "rw_inv (obtainRO s)"
proof -
  obtain t s1 where b: "obtainRO_body s = (t, s1)" by (cases "obtainRO_body s")
  note f = obtainRO_body_inv[OF b inv]
  let ?ts = "rwtasks s"
  have s': "obtainRO s = s1\<lparr>rwtasks := ?ts @ [t]\<rparr>"
    using b f by (simp add: obtainRO_def)
  have w: "wset (?ts @ [t]) = wset ?ts" using f by (simp add: wset_snoc_None)
  have r: "rset (?ts @ [t]) \<subseteq> rset ?ts \<union> (case rtok t of None \<Rightarrow> {} | Some p \<Rightarrow> {p})"
    by (cases "rtok t") (simp_all add: rset_snoc_None rset_snoc_Some)
  have hc: "heap_ok (rwpromises s1) (?ts @ [t]) (m_nextRWPromise s) \<and>
            chain_ok (rwpromises s1) (?ts @ [t])"
    using f w r by (intro tasks_reader_change[where t = t and ts = ?ts]) simp_all
  have m: "wmono (?ts @ [t])" using inv f by (simp add: rw_inv_def wmono_snoc_None)
  have g: "wgrants_ok (rwgrants s) (?ts @ [t])"
    using inv f by (simp add: rw_inv_def wgrants_ok_snoc)
  show ?thesis unfolding rw_inv_def s' using hc m g f by simp
qed

lemma rw_inv_resume_RO:
  assumes inv: "rw_inv s" and i: "i < length (rwtasks s)"
    and ti: "rwtasks s ! i = RO_Await a"
    and b: "obtainRO_body s = (t, s1)"
  shows "rw_inv (s1\<lparr>rwtasks := (rwtasks s1)[i := t]\<rparr>)"
proof -
  note f = obtainRO_body_inv[OF b inv]
  let ?ts = "rwtasks s"
  have wi: "wthis t = wthis (?ts ! i)" using f ti by simp
  have w: "wset (?ts[i := t]) = wset ?ts" using i wi by (rule wset_update)
  have r: "rset (?ts[i := t]) \<subseteq> rset ?ts \<union> (case rtok t of None \<Rightarrow> {} | Some p \<Rightarrow> {p})"
    by (rule rset_update_sub)
  have sub: "set (?ts[i := t]) \<subseteq> insert t (set ?ts)" by (rule set_update_subset_insert)
  have hc: "heap_ok (rwpromises s1) (?ts[i := t]) (m_nextRWPromise s) \<and>
            chain_ok (rwpromises s1) (?ts[i := t])"
    using f sub w r by (intro tasks_reader_change[where t = t and ts = ?ts]) simp_all
  have m: "wmono (?ts[i := t])" using inv i wi by (simp add: rw_inv_def wmono_update)
  have g: "wgrants_ok (rwgrants s) (?ts[i := t])"
    using inv i ti f by (intro wgrants_ok_update) (simp_all add: rw_inv_def)
  show ?thesis unfolding rw_inv_def using hc m g f by simp
qed

lemma rw_inv_obtainRW:
  assumes inv: "rw_inv s"
  shows "rw_inv (obtainRW s)"
proof -
  let ?h = "rwpromises s"
  let ?ts = "rwtasks s"
  let ?mn = "m_nextRWPromise s"
  let ?n = "length ?h"
  let ?t = "RW_AwaitPrev ?mn ?n"
  let ?h' = "?h @ [Plain Pending]"
  have ho: "heap_ok ?h ?ts ?mn" and co: "chain_ok ?h ?ts" and mo: "wmono ?ts"
    and go: "wgrants_ok (rwgrants s) ?ts"
    using inv by (simp_all add: rw_inv_def)
  have h1: "?mn < ?n" and h2: "\<forall>p \<in> wset ?ts \<union> rset ?ts. 0 < p \<and> p < ?n"
    and h3: "\<forall>p \<in> wset ?ts. \<exists>st. ?h ! p = Plain st" and h4: "wset ?ts \<inter> rset ?ts = {}"
    and h5: "\<forall>p \<in> wset ?ts. p \<le> ?mn" and h6: "?mn = 0 \<or> ?mn \<in> wset ?ts"
    and h7: "rw_settled ?h 0"
    using ho by (simp_all add: heap_ok_def)
  have bw: "0 < p \<and> p < ?n" if "p \<in> wset ?ts" for p using h2 that by blast
  have br: "0 < p \<and> p < ?n" if "p \<in> rset ?ts" for p using h2 that by blast
  have s': "obtainRW s = s\<lparr>rwpromises := ?h', m_nextRWPromise := ?n, rwtasks := ?ts @ [?t]\<rparr>"
    by (simp add: obtainRW_def Let_def)
  have lt: "p < ?n" if "p \<in> insert 0 (wset ?ts)" for p
    using that h1 bw by auto
  have same: "\<forall>p \<in> insert 0 (wset ?ts). rw_settled ?h' p = rw_settled ?h p"
    using lt by (simp add: rw_settled_append)
  have plain: "\<forall>p < ?n. \<forall>st. ?h ! p = Plain st \<longrightarrow> (\<exists>st'. ?h' ! p = Plain st')"
    by (simp add: nth_append)
  have hc: "heap_ok ?h' ?ts ?mn \<and> chain_ok ?h' ?ts"
    using ho co _ plain same by (rule heap_chain_cong) simp
  then have co': "chain_ok ?h' ?ts" by simp
  have w: "wset (?ts @ [?t]) = insert ?n (wset ?ts)" by (simp add: wset_snoc_Some)
  have r: "rset (?ts @ [?t]) = rset ?ts" by (simp add: rset_snoc_None)
  have nw: "?n \<notin> wset ?ts" "?n \<notin> rset ?ts" using bw br by auto
  have st: "rw_settled ?h' p = rw_settled ?h p" if "p \<in> wset ?ts" for p
    using same that by simp
  have nn: "\<not> rw_settled ?h' ?n" by (simp add: rw_settled_def)
  have ho': "heap_ok ?h' (?ts @ [?t]) ?n"
    unfolding heap_ok_def w r
  proof (intro conjI)
    show "?n < length ?h'" by simp
    show "\<forall>p \<in> insert ?n (wset ?ts) \<union> rset ?ts. 0 < p \<and> p < length ?h'"
      using h1 bw br by (auto simp: less_Suc_eq)
    show "\<forall>p \<in> insert ?n (wset ?ts). \<exists>st. ?h' ! p = Plain st"
      using bw h3 by (auto simp: nth_append)
    show "insert ?n (wset ?ts) \<inter> rset ?ts = {}" using h4 nw by auto
    show "\<forall>p \<in> insert ?n (wset ?ts). p \<le> ?n" using bw by (auto simp: less_imp_le)
    show "?n = 0 \<or> ?n \<in> insert ?n (wset ?ts)" by simp
    show "rw_settled ?h' 0" using h7 same by simp
  qed
  have c1: "\<forall>p \<in> wset ?ts. \<forall>q \<in> wset ?ts. q \<le> p \<longrightarrow> rw_settled ?h' p \<longrightarrow> rw_settled ?h' q"
    and c2: "\<forall>t \<in> set ?ts. \<forall>q. (t = RW_Returned q \<or> (\<exists>a. t = RW_AwaitRO a q)) \<longrightarrow>
          (\<forall>p \<in> wset ?ts. p < q \<longrightarrow> rw_settled ?h' p)"
    and c3: "\<forall>t \<in> set ?ts. \<forall>pr q. t = RW_AwaitPrev pr q \<longrightarrow>
          pr < q \<and> \<not> rw_settled ?h' q \<and> (pr = 0 \<or> pr \<in> wset ?ts) \<and>
          (\<forall>p \<in> wset ?ts. p < q \<longrightarrow> p \<le> pr)"
    and c4: "\<forall>t \<in> set ?ts. \<forall>a q. t = RW_AwaitRO a q \<longrightarrow> \<not> rw_settled ?h' q"
    using co' by (simp_all add: chain_ok_def)
  have bound: "q < ?n" if "u \<in> set ?ts" "wthis u = Some q" for u q
  proof -
    have "q \<in> wset ?ts" using that by (rule wset_mem)
    with bw show ?thesis by auto
  qed
  have co'': "chain_ok ?h' (?ts @ [?t])"
    unfolding chain_ok_def w
  proof (intro conjI ballI allI impI)
    fix p q
    assume p: "p \<in> insert ?n (wset ?ts)" and q: "q \<in> insert ?n (wset ?ts)"
      and qp: "q \<le> p" and sp: "rw_settled ?h' p"
    from sp nn have pw: "p \<in> wset ?ts" using p by auto
    with bw[of p] qp have "q \<noteq> ?n" by auto
    with q have "q \<in> wset ?ts" by simp
    with c1 pw qp sp show "rw_settled ?h' q" by blast
  next
    fix u q p
    assume u: "u \<in> set (?ts @ [?t])" "u = RW_Returned q \<or> (\<exists>a. u = RW_AwaitRO a q)"
      and p: "p \<in> insert ?n (wset ?ts)" "p < q"
    from u have uo: "u \<in> set ?ts" by auto
    from u(2) have "wthis u = Some q" by auto
    with uo have "q < ?n" by (rule bound)
    with p have "p \<in> wset ?ts" by auto
    with c2 uo u(2) p(2) show "rw_settled ?h' p" by blast
  next
    fix u pr q
    assume u: "u \<in> set (?ts @ [?t])" "u = RW_AwaitPrev pr q"
    have all: "pr < q \<and> \<not> rw_settled ?h' q \<and> (pr = 0 \<or> pr \<in> insert ?n (wset ?ts)) \<and>
          (\<forall>p \<in> insert ?n (wset ?ts). p < q \<longrightarrow> p \<le> pr)"
    proof (cases "u \<in> set ?ts")
      case True
      with c3 u(2) have c: "pr < q" "\<not> rw_settled ?h' q" "pr = 0 \<or> pr \<in> wset ?ts"
        "\<forall>p \<in> wset ?ts. p < q \<longrightarrow> p \<le> pr" by blast+
      have "wthis u = Some q" using u(2) by simp
      with True have "q < ?n" by (rule bound)
      with c show ?thesis by auto
    next
      case False
      with u have "pr = ?mn" "q = ?n" by auto
      with h1 nn h6 h5 show ?thesis by auto
    qed
    then show "pr < q" "\<not> rw_settled ?h' q" "pr = 0 \<or> pr \<in> insert ?n (wset ?ts)"
      by simp_all
    fix p assume "p \<in> insert ?n (wset ?ts)" "p < q"
    with all show "p \<le> pr" by blast
  next
    fix u a q
    assume u: "u \<in> set (?ts @ [?t])" "u = RW_AwaitRO a q"
    then have "u \<in> set ?ts" by auto
    with c4 u(2) show "\<not> rw_settled ?h' q" by blast
  qed
  have m: "wmono (?ts @ [?t])"
    using mo bw by (intro wmono_snoc_Some[where n = ?n]) auto
  have g: "wgrants_ok (rwgrants s) (?ts @ [?t])"
    using go by (intro wgrants_ok_snoc) simp_all
  show ?thesis unfolding rw_inv_def s' using ho' co'' m g by simp
qed

lemma rw_inv_resume_RW:
  assumes inv: "rw_inv s" and i: "i < length (rwtasks s)"
    and old: "(rwtasks s ! i = RW_AwaitPrev pr q \<and> rw_settled (rwpromises s) pr) \<or>
              (\<exists>a. rwtasks s ! i = RW_AwaitRO a q)"
    and b: "obtainRW_body i q s = (t, s1)"
  shows "rw_inv (s1\<lparr>rwtasks := (rwtasks s1)[i := t]\<rparr>)"
proof -
  let ?h = "rwpromises s"
  let ?ts = "rwtasks s"
  let ?mn = "m_nextRWPromise s"
  let ?ts' = "?ts[i := t]"
  have ho: "heap_ok ?h ?ts ?mn" and co: "chain_ok ?h ?ts" and mo: "wmono ?ts"
    and go: "wgrants_ok (rwgrants s) ?ts"
    using inv by (simp_all add: rw_inv_def)
  have h1: "?mn < length ?h" and h2: "\<forall>p \<in> wset ?ts \<union> rset ?ts. 0 < p \<and> p < length ?h"
    and h3: "\<forall>p \<in> wset ?ts. \<exists>st. ?h ! p = Plain st" and h4: "wset ?ts \<inter> rset ?ts = {}"
    and h5: "\<forall>p \<in> wset ?ts. p \<le> ?mn" and h6: "?mn = 0 \<or> ?mn \<in> wset ?ts"
    and h7: "rw_settled ?h 0"
    using ho by (simp_all add: heap_ok_def)
  have c1: "\<forall>p \<in> wset ?ts. \<forall>q \<in> wset ?ts. q \<le> p \<longrightarrow> rw_settled ?h p \<longrightarrow> rw_settled ?h q"
    and c2: "\<forall>t \<in> set ?ts. \<forall>q. (t = RW_Returned q \<or> (\<exists>a. t = RW_AwaitRO a q)) \<longrightarrow>
          (\<forall>p \<in> wset ?ts. p < q \<longrightarrow> rw_settled ?h p)"
    and c3: "\<forall>t \<in> set ?ts. \<forall>pr q. t = RW_AwaitPrev pr q \<longrightarrow>
          pr < q \<and> \<not> rw_settled ?h q \<and> (pr = 0 \<or> pr \<in> wset ?ts) \<and>
          (\<forall>p \<in> wset ?ts. p < q \<longrightarrow> p \<le> pr)"
    and c4: "\<forall>t \<in> set ?ts. \<forall>a q. t = RW_AwaitRO a q \<longrightarrow> \<not> rw_settled ?h q"
    using co by (simp_all add: chain_ok_def)
  have mem: "?ts ! i \<in> set ?ts" using i by simp
  have wq: "wthis (?ts ! i) = Some q" using old by auto
  have nret: "\<forall>p. ?ts ! i \<noteq> RW_Returned p" using old by auto
  have nsq: "\<not> rw_settled ?h q"
  proof -
    from old consider "?ts ! i = RW_AwaitPrev pr q" | a where "?ts ! i = RW_AwaitRO a q"
      by blast
    then show ?thesis
    proof cases
      case 1
      with c3 mem show ?thesis by metis
    next
      case 2
      with c4 mem show ?thesis by metis
    qed
  qed
  have pastq: "rw_settled ?h p" if p: "p \<in> wset ?ts" "p < q" for p
  proof -
    from old consider "?ts ! i = RW_AwaitPrev pr q" "rw_settled ?h pr"
      | a where "?ts ! i = RW_AwaitRO a q"
      by blast
    then show ?thesis
    proof cases
      case 1
      with c3 mem have c: "pr = 0 \<or> pr \<in> wset ?ts"
        "\<forall>p \<in> wset ?ts. p < q \<longrightarrow> p \<le> pr" by metis+
      with p have le: "p \<le> pr" by blast
      show ?thesis
      proof (cases "p = pr")
        case True
        with 1(2) show ?thesis by simp
      next
        case False
        with le have "p < pr" by simp
        with c(1) have "pr \<in> wset ?ts" by auto
        with c1 p(1) le 1(2) show ?thesis by blast
      qed
    next
      case 2
      with c2 mem p show ?thesis by metis
    qed
  qed
  have tcase: "(t = RW_AwaitRO (m_lastROPromise s) q \<and> s1 = s) \<or>
      (t = RW_Returned q \<and> rwpromises s1 = ?h \<and> rwtasks s1 = ?ts \<and>
       m_nextRWPromise s1 = ?mn \<and> rwgrants s1 = rwgrants s @ [i])"
    using b by (auto simp: obtainRW_body_def split: if_splits)
  then have f: "rwpromises s1 = ?h" "rwtasks s1 = ?ts" "m_nextRWPromise s1 = ?mn"
    and wt: "wthis t = Some q" and rt: "rtok t = None"
    and tpast: "t = RW_Returned q \<or> (\<exists>a. t = RW_AwaitRO a q)"
    by auto
  have w: "wset ?ts' = wset ?ts" using i wt wq by (intro wset_update) simp_all
  have r: "rset ?ts' \<subseteq> rset ?ts" using rset_update_sub[of ?ts i t] rt by simp
  have sub: "set ?ts' \<subseteq> insert t (set ?ts)" by (rule set_update_subset_insert)
  have ho': "heap_ok ?h ?ts' ?mn"
    unfolding heap_ok_def w
  proof (intro conjI)
    show "?mn < length ?h" "\<forall>p \<in> wset ?ts. \<exists>st. ?h ! p = Plain st" "\<forall>p \<in> wset ?ts. p \<le> ?mn"
      "?mn = 0 \<or> ?mn \<in> wset ?ts" "rw_settled ?h 0"
      using h1 h3 h5 h6 h7 by simp_all
    show "\<forall>p \<in> wset ?ts \<union> rset ?ts'. 0 < p \<and> p < length ?h"
      using h2 r by blast
    show "wset ?ts \<inter> rset ?ts' = {}" using h4 r by blast
  qed
  have co': "chain_ok ?h ?ts'"
    unfolding chain_ok_def w
  proof (intro conjI ballI allI impI)
    fix p q'
    assume "p \<in> wset ?ts" "q' \<in> wset ?ts" "q' \<le> p" "rw_settled ?h p"
    with c1 show "rw_settled ?h q'" by blast
  next
    fix u q' p
    assume u: "u \<in> set ?ts'" "u = RW_Returned q' \<or> (\<exists>a. u = RW_AwaitRO a q')"
      and p: "p \<in> wset ?ts" "p < q'"
    show "rw_settled ?h p"
    proof (cases "u = t")
      case True
      with u(2) wt have "q' = q" by auto
      with p show ?thesis using pastq by simp
    next
      case False
      with u(1) sub have "u \<in> set ?ts" by blast
      with c2 u(2) p show ?thesis by blast
    qed
  next
    fix u pr' q'
    assume u: "u \<in> set ?ts'" "u = RW_AwaitPrev pr' q'"
    with tpast have "u \<noteq> t" by auto
    with u(1) sub have "u \<in> set ?ts" by blast
    with c3 u(2) have c: "pr' < q' \<and> \<not> rw_settled ?h q' \<and> (pr' = 0 \<or> pr' \<in> wset ?ts) \<and>
          (\<forall>p \<in> wset ?ts. p < q' \<longrightarrow> p \<le> pr')" by blast
    then show "pr' < q'" "\<not> rw_settled ?h q'" "pr' = 0 \<or> pr' \<in> wset ?ts" by simp_all
    fix p assume "p \<in> wset ?ts" "p < q'"
    with c show "p \<le> pr'" by blast
  next
    fix u a q'
    assume u: "u \<in> set ?ts'" "u = RW_AwaitRO a q'"
    show "\<not> rw_settled ?h q'"
    proof (cases "u = t")
      case True
      with u(2) wt have "q' = q" by auto
      with nsq show ?thesis by simp
    next
      case False
      with u(1) sub have "u \<in> set ?ts" by blast
      with c4 u(2) show ?thesis by blast
    qed
  qed
  have m: "wmono ?ts'" using mo i by (rule wmono_update) (simp add: wt wq)
  have srt: "sorted_wrt (<) (rwgrants s)"
    and gm: "\<And>k. k \<in> set (rwgrants s) \<longleftrightarrow> k < length ?ts \<and> (\<exists>p. ?ts ! k = RW_Returned p)"
    using go by (simp_all add: wgrants_ok_def)
  have g: "wgrants_ok (rwgrants s1) ?ts'"
    using tcase
  proof
    assume "t = RW_AwaitRO (m_lastROPromise s) q \<and> s1 = s"
    then show ?thesis using go i nret by (intro wgrants_ok_update) simp_all
  next
    assume a: "t = RW_Returned q \<and> rwpromises s1 = ?h \<and> rwtasks s1 = ?ts \<and>
       m_nextRWPromise s1 = ?mn \<and> rwgrants s1 = rwgrants s @ [i]"
    have before: "k < i" if k: "k \<in> set (rwgrants s)" for k
    proof (rule ccontr)
      assume "\<not> k < i"
      from k gm obtain p where kl: "k < length ?ts" and kp: "?ts ! k = RW_Returned p" by blast
      from kp nret have "k \<noteq> i" by auto
      with \<open>\<not> k < i\<close> have ik: "i < k" by simp
      have "wthis (?ts ! k) = Some p" using kp by simp
      with mo ik kl wq have qp: "q < p" unfolding wmono_def by blast
      have km: "?ts ! k \<in> set ?ts" using kl by simp
      have "q \<in> wset ?ts" using mem wq by (rule wset_mem)
      with c2 km kp qp have "rw_settled ?h q" by blast
      with nsq show False by simp
    qed
    show ?thesis
      unfolding wgrants_ok_def
    proof (intro conjI allI)
      show "sorted_wrt (<) (rwgrants s1)"
        using a srt before by (simp add: sorted_wrt_append)
      fix k
      show "k \<in> set (rwgrants s1) \<longleftrightarrow>
            k < length ?ts' \<and> (\<exists>p. ?ts' ! k = RW_Returned p)"
      proof (cases "k = i")
        case True
        then show ?thesis using a i by simp
      next
        case False
        then show ?thesis using a gm[of k] by simp
      qed
    qed
  qed
  show ?thesis unfolding rw_inv_def using ho' co' m g f by simp
qed

lemma rset_mem: "t \<in> set ts \<Longrightarrow> rtok t = Some p \<Longrightarrow> p \<in> rset ts"
  by (auto simp: rset_def)

lemma rw_inv_release_RO:
  assumes inv: "rw_inv s" and i: "i < length (rwtasks s)"
    and ti: "rwtasks s ! i = RO_Returned p"
  shows "rw_inv (s\<lparr>rwpromises := rw_resolve p (rwpromises s)\<rparr>)"
proof -
  let ?h = "rwpromises s"
  let ?ts = "rwtasks s"
  have ho: "heap_ok ?h ?ts (m_nextRWPromise s)" and co: "chain_ok ?h ?ts"
    using inv by (simp_all add: rw_inv_def)
  have h2: "\<forall>p \<in> wset ?ts \<union> rset ?ts. 0 < p \<and> p < length ?h"
    and h4: "wset ?ts \<inter> rset ?ts = {}"
    using ho by (simp_all add: heap_ok_def)
  have "?ts ! i \<in> set ?ts" using i by simp
  then have pr: "p \<in> rset ?ts" using ti by (intro rset_mem[of "?ts ! i"]) simp_all
  with h2 h4 have p0: "0 < p" and pw: "p \<notin> wset ?ts" by auto
  have same: "\<forall>x \<in> insert 0 (wset ?ts). rw_settled (rw_resolve p ?h) x = rw_settled ?h x"
    using p0 pw by (auto simp: rw_settled_resolve)
  have plain: "\<forall>x < length ?h. \<forall>st. ?h ! x = Plain st \<longrightarrow> (\<exists>st'. rw_resolve p ?h ! x = Plain st')"
    using plain_rw_resolve by blast
  have "heap_ok (rw_resolve p ?h) ?ts (m_nextRWPromise s) \<and> chain_ok (rw_resolve p ?h) ?ts"
    using ho co _ plain same by (rule heap_chain_cong) simp
  then show ?thesis using inv by (simp add: rw_inv_def)
qed

lemma rw_inv_release_RW:
  assumes inv: "rw_inv s" and i: "i < length (rwtasks s)"
    and ti: "rwtasks s ! i = RW_Returned p"
  shows "rw_inv (s\<lparr>rwpromises := rw_resolve p (rwpromises s)\<rparr>)"
proof -
  let ?h = "rwpromises s"
  let ?h' = "rw_resolve p ?h"
  let ?ts = "rwtasks s"
  let ?mn = "m_nextRWPromise s"
  have ho: "heap_ok ?h ?ts ?mn" and co: "chain_ok ?h ?ts" and mo: "wmono ?ts"
    and go: "wgrants_ok (rwgrants s) ?ts"
    using inv by (simp_all add: rw_inv_def)
  have h1: "?mn < length ?h" and h2: "\<forall>p \<in> wset ?ts \<union> rset ?ts. 0 < p \<and> p < length ?h"
    and h3: "\<forall>p \<in> wset ?ts. \<exists>st. ?h ! p = Plain st" and h4: "wset ?ts \<inter> rset ?ts = {}"
    and h5: "\<forall>p \<in> wset ?ts. p \<le> ?mn" and h6: "?mn = 0 \<or> ?mn \<in> wset ?ts"
    and h7: "rw_settled ?h 0"
    using ho by (simp_all add: heap_ok_def)
  have c1: "\<forall>p \<in> wset ?ts. \<forall>q \<in> wset ?ts. q \<le> p \<longrightarrow> rw_settled ?h p \<longrightarrow> rw_settled ?h q"
    and c2: "\<forall>t \<in> set ?ts. \<forall>q. (t = RW_Returned q \<or> (\<exists>a. t = RW_AwaitRO a q)) \<longrightarrow>
          (\<forall>p \<in> wset ?ts. p < q \<longrightarrow> rw_settled ?h p)"
    and c3: "\<forall>t \<in> set ?ts. \<forall>pr q. t = RW_AwaitPrev pr q \<longrightarrow>
          pr < q \<and> \<not> rw_settled ?h q \<and> (pr = 0 \<or> pr \<in> wset ?ts) \<and>
          (\<forall>p \<in> wset ?ts. p < q \<longrightarrow> p \<le> pr)"
    and c4: "\<forall>t \<in> set ?ts. \<forall>a q. t = RW_AwaitRO a q \<longrightarrow> \<not> rw_settled ?h q"
    using co by (simp_all add: chain_ok_def)
  have mem: "?ts ! i \<in> set ?ts" using i by simp
  have wp: "wthis (?ts ! i) = Some p" using ti by simp
  have pw: "p \<in> wset ?ts" using mem wp by (rule wset_mem)
  with h2 h3 have pl: "p < length ?h" and pp: "\<exists>st. ?h ! p = Plain st" by auto
  have st: "rw_settled ?h' x = (rw_settled ?h x \<or> x = p)" for x
  proof (cases "x = p")
    case True
    from pp obtain st0 where "?h ! p = Plain st0" by blast
    then show ?thesis using True pl
      by (cases st0) (auto simp: rw_settled_def rw_resolve_def)
  next
    case False
    then show ?thesis by (auto simp: rw_settled_resolve)
  qed
  have below: "rw_settled ?h x" if "x \<in> wset ?ts" "x < p" for x
    using c2 mem ti that by blast
  have other: "q \<noteq> p" if u: "u \<in> set ?ts" "wthis u = Some q" "u \<noteq> ?ts ! i" for u q
  proof
    assume "q = p"
    from u(1) obtain j where j: "j < length ?ts" "?ts ! j = u" by (auto simp: in_set_conv_nth)
    with u(2) \<open>q = p\<close> have "wthis (?ts ! j) = Some p" by simp
    with mo i j(1) wp have "i = j" by (intro wmono_distinct[of ?ts i j p]) simp_all
    with j(2) u(3) show False by simp
  qed
  have ho': "heap_ok ?h' ?ts ?mn"
    unfolding heap_ok_def
  proof (intro conjI)
    show "?mn < length ?h'" using h1 by simp
    show "\<forall>p \<in> wset ?ts \<union> rset ?ts. 0 < p \<and> p < length ?h'" using h2 by simp
    show "\<forall>x \<in> wset ?ts. \<exists>st. ?h' ! x = Plain st"
    proof
      fix x assume "x \<in> wset ?ts"
      with h2 h3 have "x < length ?h" "\<exists>st. ?h ! x = Plain st" by auto
      then show "\<exists>st. ?h' ! x = Plain st" using plain_rw_resolve by blast
    qed
    show "wset ?ts \<inter> rset ?ts = {}" "\<forall>p \<in> wset ?ts. p \<le> ?mn" "?mn = 0 \<or> ?mn \<in> wset ?ts"
      using h4 h5 h6 by simp_all
    show "rw_settled ?h' 0" using h7 by (simp add: st)
  qed
  have co': "chain_ok ?h' ?ts"
    unfolding chain_ok_def
  proof (intro conjI ballI allI impI)
    fix x y
    assume x: "x \<in> wset ?ts" and y: "y \<in> wset ?ts" and yx: "y \<le> x"
      and sx: "rw_settled ?h' x"
    show "rw_settled ?h' y"
    proof (cases "rw_settled ?h x")
      case True
      with c1 x y yx have "rw_settled ?h y" by blast
      then show ?thesis by (simp add: st)
    next
      case False
      with sx have xp: "x = p" by (simp add: st)
      show ?thesis
      proof (cases "y = p")
        case True
        then show ?thesis by (simp add: st)
      next
        case False
        with yx xp have "y < p" by simp
        with below y have "rw_settled ?h y" by blast
        then show ?thesis by (simp add: st)
      qed
    qed
  next
    fix u q x
    assume "u \<in> set ?ts" "u = RW_Returned q \<or> (\<exists>a. u = RW_AwaitRO a q)"
      "x \<in> wset ?ts" "x < q"
    with c2 have "rw_settled ?h x" by blast
    then show "rw_settled ?h' x" by (simp add: st)
  next
    fix u pr q
    assume u: "u \<in> set ?ts" "u = RW_AwaitPrev pr q"
    with c3 have c: "pr < q \<and> \<not> rw_settled ?h q \<and> (pr = 0 \<or> pr \<in> wset ?ts) \<and>
          (\<forall>p \<in> wset ?ts. p < q \<longrightarrow> p \<le> pr)" by blast
    have "u \<noteq> ?ts ! i" using u(2) ti by auto
    with u have "q \<noteq> p" by (intro other[of u]) simp_all
    with c show "pr < q" "\<not> rw_settled ?h' q" "pr = 0 \<or> pr \<in> wset ?ts"
      by (simp_all add: st)
    fix x assume "x \<in> wset ?ts" "x < q"
    with c show "x \<le> pr" by blast
  next
    fix u a q
    assume u: "u \<in> set ?ts" "u = RW_AwaitRO a q"
    with c4 have "\<not> rw_settled ?h q" by blast
    moreover have "u \<noteq> ?ts ! i" using u(2) ti by auto
    with u have "q \<noteq> p" by (intro other[of u]) simp_all
    ultimately show "\<not> rw_settled ?h' q" by (simp add: st)
  qed
  show ?thesis unfolding rw_inv_def using ho' co' mo go by simp
qed

lemma rw_inv_settle_all:
  assumes inv: "rw_inv s" and a: "a < length (rwpromises s)"
    and ca: "rwpromises s ! a = AllOf ps Pending"
  shows "rw_inv (s\<lparr>rwpromises := (rwpromises s)[a := AllOf ps Fulfilled]\<rparr>)"
proof -
  let ?h = "rwpromises s"
  let ?h' = "?h[a := AllOf ps Fulfilled]"
  let ?ts = "rwtasks s"
  have ho: "heap_ok ?h ?ts (m_nextRWPromise s)" and co: "chain_ok ?h ?ts"
    using inv by (simp_all add: rw_inv_def)
  have h3: "\<forall>p \<in> wset ?ts. \<exists>st. ?h ! p = Plain st" and h7: "rw_settled ?h 0"
    using ho by (simp_all add: heap_ok_def)
  have ne: "x \<noteq> a" if "x \<in> insert 0 (wset ?ts)" for x
  proof
    assume "x = a"
    with that consider "a = 0" | "a \<in> wset ?ts" by auto
    then show False
    proof cases
      case 1
      with h7 ca show False by (simp add: rw_settled_def)
    next
      case 2
      with h3 ca show False by auto
    qed
  qed
  have same: "\<forall>x \<in> insert 0 (wset ?ts). rw_settled ?h' x = rw_settled ?h x"
  proof
    fix x assume "x \<in> insert 0 (wset ?ts)"
    then have "x \<noteq> a" by (rule ne)
    then show "rw_settled ?h' x = rw_settled ?h x" by (simp add: rw_settled_def)
  qed
  have plain: "\<forall>x < length ?h. \<forall>st. ?h ! x = Plain st \<longrightarrow> (\<exists>st'. ?h' ! x = Plain st')"
  proof (intro allI impI)
    fix x st assume x: "x < length ?h" "?h ! x = Plain st"
    with ca have "x \<noteq> a" by auto
    with x show "\<exists>st'. ?h' ! x = Plain st'" by simp
  qed
  have "heap_ok ?h' ?ts (m_nextRWPromise s) \<and> chain_ok ?h' ?ts"
    using ho co _ plain same by (rule heap_chain_cong) simp
  then show ?thesis using inv by (simp add: rw_inv_def)
qed

lemma rw_inv_step:
  assumes inv: "rw_inv s" and step: "rw_step e s = Some s'"
  shows "rw_inv s'"
proof (cases e)
  case ObtainRO
  with step inv show ?thesis by (auto intro: rw_inv_obtainRO)
next
  case LockRO
  with step inv show ?thesis by (auto simp: lockRO_def intro: rw_inv_obtainRO)
next
  case ObtainRW
  with step inv show ?thesis by (auto intro: rw_inv_obtainRW)
next
  case LockRW
  with step inv show ?thesis by (auto simp: lockRW_def intro: rw_inv_obtainRW)
next
  case (RWResume i)
  with step have r: "rw_resume i s = Some s'" by simp
  then have i: "i < length (rwtasks s)" by (simp add: rw_resume_def split: if_splits)
  show ?thesis
  proof (cases "rwtasks s ! i")
    case (RO_Await p)
    obtain t s1 where b: "obtainRO_body s = (t, s1)" by (cases "obtainRO_body s")
    with r i RO_Await have "s' = s1\<lparr>rwtasks := (rwtasks s1)[i := t]\<rparr>"
      by (simp add: rw_resume_def split: if_splits)
    with rw_inv_resume_RO[OF inv i RO_Await b] show ?thesis by simp
  next
    case (RO_Returned p)
    with r i show ?thesis by (simp add: rw_resume_def)
  next
    case (RW_AwaitPrev pr p)
    obtain t s1 where b: "obtainRW_body i p s = (t, s1)" by (cases "obtainRW_body i p s")
    with r i RW_AwaitPrev have s': "s' = s1\<lparr>rwtasks := (rwtasks s1)[i := t]\<rparr>"
      and sp: "rw_settled (rwpromises s) pr"
      by (simp_all add: rw_resume_def split: if_splits)
    have "(rwtasks s ! i = RW_AwaitPrev pr p \<and> rw_settled (rwpromises s) pr) \<or>
          (\<exists>a. rwtasks s ! i = RW_AwaitRO a p)"
      using RW_AwaitPrev sp by simp
    from rw_inv_resume_RW[OF inv i this b] s' show ?thesis by simp
  next
    case (RW_AwaitRO a p)
    obtain t s1 where b: "obtainRW_body i p s = (t, s1)" by (cases "obtainRW_body i p s")
    with r i RW_AwaitRO have s': "s' = s1\<lparr>rwtasks := (rwtasks s1)[i := t]\<rparr>"
      by (simp add: rw_resume_def split: if_splits)
    have "(rwtasks s ! i = RW_AwaitPrev 0 p \<and> rw_settled (rwpromises s) 0) \<or>
          (\<exists>a. rwtasks s ! i = RW_AwaitRO a p)"
      using RW_AwaitRO by simp
    from rw_inv_resume_RW[OF inv i this b] s' show ?thesis by simp
  next
    case (RW_Returned p)
    with r i show ?thesis by (simp add: rw_resume_def)
  qed
next
  case (RWRelease i)
  with step have r: "rw_release i s = Some s'" by simp
  then have i: "i < length (rwtasks s)" by (simp add: rw_release_def split: if_splits)
  show ?thesis
  proof (cases "rwtasks s ! i")
    case (RO_Returned p)
    with r i have "s' = s\<lparr>rwpromises := rw_resolve p (rwpromises s)\<rparr>"
      by (simp add: rw_release_def)
    with rw_inv_release_RO[OF inv i RO_Returned] show ?thesis by simp
  next
    case (RW_Returned p)
    with r i have "s' = s\<lparr>rwpromises := rw_resolve p (rwpromises s)\<rparr>"
      by (simp add: rw_release_def)
    with rw_inv_release_RW[OF inv i RW_Returned] show ?thesis by simp
  next
    case (RO_Await p)
    with r i show ?thesis by (simp add: rw_release_def)
  next
    case (RW_AwaitPrev pr p)
    with r i show ?thesis by (simp add: rw_release_def)
  next
    case (RW_AwaitRO a p)
    with r i show ?thesis by (simp add: rw_release_def)
  qed
next
  case (React k)
  with step have "rw_react k s = Some s'" by simp
  then have "rwpromises s' = rwpromises s \<and> rwtasks s' = rwtasks s \<and>
      m_nextRWPromise s' = m_nextRWPromise s \<and> rwgrants s' = rwgrants s"
    by (auto simp: rw_react_def split: if_splits reaction.splits)
  with inv show ?thesis by (simp add: rw_inv_def)
next
  case (SettleAll a)
  with step have r: "rw_settle_all a s = Some s'" by simp
  then have a: "a < length (rwpromises s)" by (simp add: rw_settle_all_def split: if_splits)
  from r a obtain ps where ca: "rwpromises s ! a = AllOf ps Pending"
    and s': "s' = s\<lparr>rwpromises := (rwpromises s)[a := AllOf ps Fulfilled]\<rparr>"
    by (auto simp: rw_settle_all_def split: if_splits rwcell.splits pstate.splits)
  from rw_inv_settle_all[OF inv a ca] s' show ?thesis by simp
qed

lemma rw_inv_run: "rw_inv s \<Longrightarrow> rw_run es s = Some s' \<Longrightarrow> rw_inv s'"
  by (induction es arbitrary: s) (auto split: option.splits dest: rw_inv_step)

lemma rw_inv_reachable: "rw_run es new_mutexrw = Some s \<Longrightarrow> rw_inv s"
  using rw_inv_new rw_inv_run by blast

lemma rw_fifo:
  assumes run: "rw_run evs new_mutexrw = Some s"
    and wi: "is_writer s i" and ij: "i < j" and gj: "j \<in> set (rwgrants s)"
  shows "granted_before (rwgrants s) i j"
proof -
  let ?h = "rwpromises s"
  let ?ts = "rwtasks s"
  have inv: "rw_inv s" using run by (rule rw_inv_reachable)
  then have co: "chain_ok ?h ?ts" and mo: "wmono ?ts" and go: "wgrants_ok (rwgrants s) ?ts"
    by (simp_all add: rw_inv_def)
  have c2: "\<forall>t \<in> set ?ts. \<forall>q. (t = RW_Returned q \<or> (\<exists>a. t = RW_AwaitRO a q)) \<longrightarrow>
          (\<forall>p \<in> wset ?ts. p < q \<longrightarrow> rw_settled ?h p)"
    and c3: "\<forall>t \<in> set ?ts. \<forall>pr q. t = RW_AwaitPrev pr q \<longrightarrow>
          pr < q \<and> \<not> rw_settled ?h q \<and> (pr = 0 \<or> pr \<in> wset ?ts) \<and>
          (\<forall>p \<in> wset ?ts. p < q \<longrightarrow> p \<le> pr)"
    and c4: "\<forall>t \<in> set ?ts. \<forall>a q. t = RW_AwaitRO a q \<longrightarrow> \<not> rw_settled ?h q"
    using co by (simp_all add: chain_ok_def)
  have srt: "sorted_wrt (<) (rwgrants s)"
    and gm: "\<And>k. k \<in> set (rwgrants s) \<longleftrightarrow> k < length ?ts \<and> (\<exists>p. ?ts ! k = RW_Returned p)"
    using go by (simp_all add: wgrants_ok_def)
  from gj gm obtain q where jl: "j < length ?ts" and tj: "?ts ! j = RW_Returned q" by blast
  from wi obtain p where il: "i < length ?ts" and ti: "wthis (?ts ! i) = Some p"
    by (auto simp: is_writer_def)
  have "wthis (?ts ! j) = Some q" using tj by simp
  with mo ij jl ti have pq: "p < q" unfolding wmono_def by blast
  have jm: "?ts ! j \<in> set ?ts" using jl by simp
  have im: "?ts ! i \<in> set ?ts" using il by simp
  have "p \<in> wset ?ts" using im ti by (rule wset_mem)
  with c2 jm tj pq have sp: "rw_settled ?h p" by blast
  have "?ts ! i = RW_Returned p"
  proof (cases "?ts ! i")
    case (RW_AwaitPrev pr p')
    with ti c3 im sp show ?thesis by auto
  next
    case (RW_AwaitRO a p')
    with ti c4 im sp show ?thesis by auto
  next
    case (RW_Returned p')
    with ti show ?thesis by simp
  next
    case (RO_Await a)
    with ti show ?thesis by simp
  next
    case (RO_Returned a)
    with ti show ?thesis by simp
  qed
  with gm il have mem: "i \<in> set (rwgrants s)" by blast
  show ?thesis unfolding granted_before_def using srt mem ij by (rule sorted_takeWhile)
qed

text \<open>
  The two fields exclude each other.  In every state reachable by any interleaving of
  \<open>obtainRO\<close>/\<open>obtainRW\<close> calls, resumptions, releases and the registered callbacks,
  \<open>rwAccess\<close> and \<open>roAccessCnt > 0\<close> never hold together: the count is incremented only
  right after \<open>rwAccess\<close> was read as false, and \<open>rwAccess\<close> is set only right after the
  count was read as zero.  Any number of readers can be inside at the same time: after
  \<open>n\<close> calls of \<open>obtainRO\<close> on a fresh lock all \<open>n\<close> hold unreleased read access.
\<close>

lemma rw_flags_exclusive:
  "(\<forall>evs s. rw_run evs new_mutexrw = Some s \<longrightarrow> \<not> (rwAccess s \<and> 0 < roAccessCnt s)) \<and>
   (\<forall>n. \<exists>s. rw_run (replicate n ObtainRO) new_mutexrw = Some s \<and>
             roAccessCnt s = int n \<and> (\<forall>i < n. reading s i))"
proof (intro conjI allI impI)
  fix evs s
  assume "rw_run evs new_mutexrw = Some s"
  then show "\<not> (rwAccess s \<and> 0 < roAccessCnt s)"
    by (rule rw_run_flags) (simp add: new_mutexrw_def)
next
  fix n
  from readers_overlap_run[of n]
  show "\<exists>s. rw_run (replicate n ObtainRO) new_mutexrw = Some s \<and>
             roAccessCnt s = int n \<and> (\<forall>i < n. reading s i)"
    by (auto simp: readers_overlap_def)
qed

lemma rw_flags_exclusive_witness:
  "rw_run [ObtainRO, ObtainRW, RWResume 1, RWRelease 0, React 0, SettleAll 4, RWResume 1] new_mutexrw
     \<noteq> None \<and>
   rwAccess (the (rw_run
     [ObtainRO, ObtainRW, RWResume 1, RWRelease 0, React 0, SettleAll 4, RWResume 1] new_mutexrw)) \<and>
   \<not> 0 < roAccessCnt (the (rw_run
     [ObtainRO, ObtainRW, RWResume 1, RWRelease 0, React 0, SettleAll 4, RWResume 1] new_mutexrw))"
proof -
  let ?evs = "[ObtainRO, ObtainRW, RWResume 1, RWRelease 0, React 0, SettleAll 4, RWResume 1]"
  let ?s = "the (rw_run ?evs new_mutexrw)"
  have ne: "rw_run ?evs new_mutexrw \<noteq> None" by code_simp
  have r: "rw_run ?evs new_mutexrw = Some ?s" using ne by (rule option.collapse[symmetric])
  have a: "rwAccess ?s" by code_simp
  have "\<not> (rwAccess ?s \<and> 0 < roAccessCnt ?s)"
    using rw_flags_exclusive[THEN conjunct1, rule_format, OF r] .
  with a have "\<not> 0 < roAccessCnt ?s" by simp
  with ne a show ?thesis by (intro conjI)
qed

text \<open>
  C2. The claim reads \<open>rwAccess\<close> as "a writer is active" and \<open>roAccessCnt > 0\<close> as "a
  reader has been granted and has not released", and says that the two never hold
  together.  The fields do not say that.  \<open>rwAccess\<close> is cleared by a callback registered on
  the writer's own promise when the writer is granted.  A writer that queued behind it
  registered its continuation on that promise earlier, so after the release the next
  writer is granted (and sets the flag) before the callback of the previous one clears it.
  From then on \<open>rwAccess\<close> is false although a writer holds the lock, and a reader that
  arrives is admitted beside it: after two calls of \<open>obtainRW\<close>, the grant and release of
  the first and the grant of the second, a call of \<open>obtainRO\<close> returns at once, and call 1
  holds write access while call 2 holds read access.
\<close>

theorem stale_clear_admits_reader:
  "rw_run [ObtainRW, ObtainRW, RWResume 0, RWRelease 0, RWResume 1, React 0, ObtainRO] new_mutexrw
     \<noteq> None \<and>
   writing (the (rw_run
     [ObtainRW, ObtainRW, RWResume 0, RWRelease 0, RWResume 1, React 0, ObtainRO] new_mutexrw)) 1 \<and>
   reading (the (rw_run
     [ObtainRW, ObtainRW, RWResume 0, RWRelease 0, RWResume 1, React 0, ObtainRO] new_mutexrw)) 2 \<and>
   roAccessCnt (the (rw_run
     [ObtainRW, ObtainRW, RWResume 0, RWRelease 0, RWResume 1, React 0, ObtainRO] new_mutexrw)) = 1 \<and>
   \<not> rwAccess (the (rw_run
     [ObtainRW, ObtainRW, RWResume 0, RWRelease 0, RWResume 1, React 0, ObtainRO] new_mutexrw))"
  by code_simp

section \<open>FIFO granting\<close>

text \<open>
  C3. Calls are numbered in call order (the index of a call in the task list), and the
  grant log records the calls in the order in which they were granted.  For two queued
  \<open>Mutex\<close> acquisitions, and for two \<open>MutexRW\<close> write acquisitions, whenever the later
  call has been granted, the earlier call was granted before it.
\<close>

theorem grants_follow_call_order:
  "(\<forall>evs s i j. mutex_run evs new_mutex = Some s \<longrightarrow> queued s i \<longrightarrow> i < j \<longrightarrow>
       j \<in> set (mgrants s) \<longrightarrow> granted_before (mgrants s) i j) \<and>
   (\<forall>evs s i j. rw_run evs new_mutexrw = Some s \<longrightarrow> is_writer s i \<longrightarrow> i < j \<longrightarrow>
       j \<in> set (rwgrants s) \<longrightarrow> granted_before (rwgrants s) i j)"
  using mutex_fifo rw_fifo by blast

theorem grants_follow_call_order_witness:
  "mutex_run [Obtain False, Obtain True, Obtain False, Resume 0, Release 0, Resume 2] new_mutex
     \<noteq> None \<and>
   queued (the (mutex_run
     [Obtain False, Obtain True, Obtain False, Resume 0, Release 0, Resume 2] new_mutex)) 0 \<and>
   2 \<in> set (mgrants (the (mutex_run
     [Obtain False, Obtain True, Obtain False, Resume 0, Release 0, Resume 2] new_mutex))) \<and>
   granted_before (mgrants (the (mutex_run
     [Obtain False, Obtain True, Obtain False, Resume 0, Release 0, Resume 2] new_mutex))) 0 2 \<and>
   rw_run [ObtainRW, ObtainRO, LockRW, RWResume 0, RWRelease 1, React 0, SettleAll 5, RWResume 0,
      RWRelease 0, RWResume 2]
     new_mutexrw \<noteq> None \<and>
   is_writer (the (rw_run
     [ObtainRW, ObtainRO, LockRW, RWResume 0, RWRelease 1, React 0, SettleAll 5, RWResume 0,
      RWRelease 0, RWResume 2]
     new_mutexrw)) 0 \<and>
   2 \<in> set (rwgrants (the (rw_run
     [ObtainRW, ObtainRO, LockRW, RWResume 0, RWRelease 1, React 0, SettleAll 5, RWResume 0,
      RWRelease 0, RWResume 2]
     new_mutexrw))) \<and>
   granted_before (rwgrants (the (rw_run
     [ObtainRW, ObtainRO, LockRW, RWResume 0, RWRelease 1, React 0, SettleAll 5, RWResume 0,
      RWRelease 0, RWResume 2]
     new_mutexrw))) 0 2"
proof -
  let ?me = "[Obtain False, Obtain True, Obtain False, Resume 0, Release 0, Resume 2]"
  let ?m = "the (mutex_run ?me new_mutex)"
  let ?re = "[ObtainRW, ObtainRO, LockRW, RWResume 0, RWRelease 1, React 0, SettleAll 5, RWResume 0,
      RWRelease 0, RWResume 2]"
  let ?r = "the (rw_run ?re new_mutexrw)"
  have mne: "mutex_run ?me new_mutex \<noteq> None" by code_simp
  have mr: "mutex_run ?me new_mutex = Some ?m" using mne by (rule option.collapse[symmetric])
  have mq: "queued ?m 0" by code_simp
  have mg: "2 \<in> set (mgrants ?m)" by code_simp
  have rne: "rw_run ?re new_mutexrw \<noteq> None" by code_simp
  have rr: "rw_run ?re new_mutexrw = Some ?r" using rne by (rule option.collapse[symmetric])
  have rq: "is_writer ?r 0" by code_simp
  have rg: "2 \<in> set (rwgrants ?r)" by code_simp
  have lt: "(0::nat) < 2" by simp
  note th = grants_follow_call_order
  have m: "granted_before (mgrants ?m) 0 2"
    using th[THEN conjunct1, rule_format, OF mr mq lt mg] .
  have r: "granted_before (rwgrants ?r) 0 2"
    using th[THEN conjunct2, rule_format, OF rr rq lt rg] .
  show ?thesis using mne mq mg m rne rq rg r by (intro conjI)
qed

section \<open>Properties of PromiseBarrier\<close>

lemma same_kind_refl [simp]: "same_kind c c"
  by (cases c) simp_all

lemma extends_refl: "extends h h"
  by (simp add: extends_def)
















lemma cache_ok_extends:
  assumes c: "cache_ok h cf" and l: "length h \<le> length h'"
    and keep: "\<forall>t. cf = Some t \<longrightarrow> h' ! t = h ! t"
  shows "cache_ok h' cf"
  using assms unfolding cache_ok_def by fastforce





















lemma barrier_run_append:
  "barrier_run (xs @ ys) s =
     (case barrier_run xs s of None \<Rightarrow> None | Some s' \<Rightarrow> barrier_run ys s')"
  by (induction xs arbitrary: s) (auto split: option.splits)






























end
